theory Spec2Isabelle
  imports Main "HOL-Library.Word" "HOL-Library.Multiset"
begin

unbundle bit_operations_syntax

section \<open>Unsigned 32-bit arithmetic\<close>

text \<open>
  The C++ type \<^verbatim>\<open>unsigned\<close> (and \<^verbatim>\<open>units::bits\<close>, which wraps one) is modelled as
  a natural number with the wrap-around modulo \<open>2 ^ 32\<close> written out at every operation.
\<close>

definition wrap32 :: "nat \<Rightarrow> nat" where
  "wrap32 x = x mod 2 ^ 32"

definition add32 :: "nat \<Rightarrow> nat \<Rightarrow> nat" where
  "add32 a b = wrap32 (a + b)"

definition sub32 :: "nat \<Rightarrow> nat \<Rightarrow> nat" where
  "sub32 a b = wrap32 (wrap32 a + 2 ^ 32 - wrap32 b)"

definition mul32 :: "nat \<Rightarrow> nat \<Rightarrow> nat" where
  "mul32 a b = wrap32 (a * b)"

text \<open>
  Modelled from the spec: \<^verbatim>\<open>divide_ceil\<close> is declared in a support header that is not
  part of the sources at hand. The specification says that the segments that are not short
  have their length "rounded up", so it is the quotient rounded up.
\<close>

definition divide_ceil :: "nat \<Rightarrow> nat \<Rightarrow> nat" where
  "divide_ceil num den = (num + (den - 1)) div den"

section \<open>PDSCH processor: the data saved at the entry of \<^verbatim>\<open>process()\<close>\<close>

datatype modulation_scheme = QPSK | QAM16 | QAM64 | QAM256

datatype ldpc_base_graph_type = BG1 | BG2

record codeword_description =
  modulation :: modulation_scheme
  rv :: nat

text \<open>A reserved resource-element pattern: PRB mask, RE mask within a PRB, symbol mask.\<close>

type_synonym re_pattern = "bool list \<times> bool list \<times> bool list"

text \<open>
  The PDU descriptor \<^verbatim>\<open>pdsch_processor::pdu_t\<close>, restricted to the fields that
  \<^verbatim>\<open>pdsch_processor_concurrent_impl\<close> reads and that are not floating-point values.
  The precoding configuration is represented by its number of layers, the optional PT-RS
  configuration by its presence.
\<close>

record pdu_t =
  rnti :: "16 word"
  n_id :: "32 word"
  bwp_start_rb :: nat
  bwp_size_rb :: nat
  freq_alloc :: "bool list"
  start_symbol_index :: nat
  nof_symbols :: nat
  dmrs_symbol_mask :: "bool list"
  nof_cdm_groups_without_data :: nat
  reserved :: "re_pattern list"
  ptrs :: bool
  codewords :: "codeword_description list"
  ldpc_base_graph :: ldpc_base_graph_type
  tbs_lbrm :: nat
  precoding_nof_layers :: nat

text \<open>The part of the PDU that describes which resource elements the transmission occupies.\<close>

type_synonym re_allocation =
  "nat \<times> nat \<times> bool list \<times> nat \<times> nat \<times> bool list \<times> nat \<times> re_pattern list"

definition re_allocation_of :: "pdu_t \<Rightarrow> re_allocation" where
  "re_allocation_of pdu =
     (bwp_start_rb pdu, bwp_size_rb pdu, freq_alloc pdu, start_symbol_index pdu, nof_symbols pdu,
      dmrs_symbol_mask pdu, nof_cdm_groups_without_data pdu, reserved pdu)"

text \<open>
  The helpers that \<^verbatim>\<open>save_inputs\<close> calls and that live in other translation units
  (\<^verbatim>\<open>ldpc::compute_*\<close>, \<^verbatim>\<open>get_bits_per_symbol\<close>, \<^verbatim>\<open>pdsch_compute_nof_data_re\<close>) are
  parameters of the model.

  Modelled from the spec: \<^verbatim>\<open>pdsch_compute_nof_data_re\<close> is not part of the sources at hand;
  the specification derives the number of PDSCH resource elements "from allocation minus
  reserved minus DM-RS pattern", so it is a function of \<^const>\<open>re_allocation_of\<close> the PDU.
\<close>

record pdsch_helpers =
  compute_nof_data_re :: "re_allocation \<Rightarrow> nat"
  compute_nof_codeblocks :: "nat \<Rightarrow> ldpc_base_graph_type \<Rightarrow> nat"
  compute_tb_crc_size :: "nat \<Rightarrow> nat"
  compute_lifting_size :: "nat \<Rightarrow> ldpc_base_graph_type \<Rightarrow> nat \<Rightarrow> nat"
  compute_codeblock_size :: "ldpc_base_graph_type \<Rightarrow> nat \<Rightarrow> nat"
  compute_full_codeblock_size :: "ldpc_base_graph_type \<Rightarrow> nat \<Rightarrow> nat"
  compute_N_ref :: "nat \<Rightarrow> nat \<Rightarrow> nat"
  get_bits_per_symbol :: "modulation_scheme \<Rightarrow> nat"

record codeblock_metadata =
  base_graph :: ldpc_base_graph_type
  lifting_size :: nat
  md_rv :: nat
  md_mod :: modulation_scheme
  Nref :: nat
  cw_length :: nat
  full_length :: nat
  md_rm_length :: nat
  nof_filler_bits :: nat
  md_cw_offset :: nat
  nof_crc_bits :: nat

text \<open>
  The members of the processor that \<^verbatim>\<open>save_inputs\<close> assigns. The grid and notifier
  pointers, the RE patterns and the scaled precoding matrix are not modelled.
\<close>

record pdsch_state =
  data :: "8 word list"
  nof_ch_symbols :: nat
  scrambler_state :: "32 word"
  tbs :: nat
  nof_cb :: nat
  cb_info_bits :: nat
  segment_length :: nat
  zero_pad :: nat
  cb_metadata :: codeblock_metadata
  rm_length :: "nat list"
  cw_offset :: "nat list"
  re_offset :: "nat list"

datatype pdsch_error =
  Empty_tb_list
  | Empty_codewords
  | Division_by_zero
  | Assert_rm_length_sum
  | Assert_slot_boundary
  | Assert_invalid_pdu

definition MAX_NSYMB_PER_SLOT :: nat where
  "MAX_NSYMB_PER_SLOT = 14"

text \<open>\<^verbatim>\<open>std::vector::resize\<close>: keeps the leading elements, pads with zeros.\<close>

definition resize :: "nat \<Rightarrow> nat list \<Rightarrow> nat list" where
  "resize n xs = take n xs @ replicate (n - length xs) 0"

text \<open>The scrambling initial state, as computed in \<^verbatim>\<open>save_inputs\<close>.\<close>

definition scrambler_init :: "16 word \<Rightarrow> 32 word \<Rightarrow> 32 word \<Rightarrow> 32 word" where
  "scrambler_init rnti_v i_cw n_id_v =
     push_bit 15 (ucast rnti_v) + push_bit 14 i_cw + n_id_v"

text \<open>
  One iteration of the loop over the codeblocks: the accumulator is
  \<open>(re_count_sum, rm_length, cw_offset, re_offset)\<close>.
\<close>

definition rm_step ::
  "nat \<Rightarrow> nat \<Rightarrow> nat \<Rightarrow> nat \<Rightarrow> nat \<Rightarrow> nat \<Rightarrow>
   nat \<times> nat list \<times> nat list \<times> nat list \<Rightarrow> nat \<times> nat list \<times> nat list \<times> nat list" where
  "rm_step nof_re_pdsch n_cb nof_short_segments n_layers bits_per_symbol i_cb acc =
     (case acc of (re_count_sum, rm, cw, re) \<Rightarrow>
        let rm_length_re =
              (if i_cb < nof_short_segments then nof_re_pdsch div n_cb
               else divide_ceil nof_re_pdsch n_cb)
        in (add32 re_count_sum rm_length_re,
            rm[i_cb := mul32 (mul32 rm_length_re n_layers) bits_per_symbol],
            cw[i_cb := mul32 (mul32 re_count_sum n_layers) bits_per_symbol],
            re[i_cb := re_count_sum]))"

definition rm_loop ::
  "nat \<Rightarrow> nat \<Rightarrow> nat \<Rightarrow> nat \<Rightarrow> nat \<Rightarrow> nat list \<times> nat list \<times> nat list \<Rightarrow>
   nat \<times> nat list \<times> nat list \<times> nat list" where
  "rm_loop nof_re_pdsch n_cb nof_short_segments n_layers bits_per_symbol old =
     (case old of (rm, cw, re) \<Rightarrow>
        fold (rm_step nof_re_pdsch n_cb nof_short_segments n_layers bits_per_symbol) [0..<n_cb]
          (0, resize n_cb rm, resize n_cb cw, resize n_cb re))"

text \<open>
  \<^verbatim>\<open>save_inputs\<close>. The second argument holds the three vectors as the previous call left
  them. Taking the front of an empty list, dividing by zero and a failed assertion are errors.
\<close>

definition save_inputs ::
  "pdsch_helpers \<Rightarrow> nat list \<times> nat list \<times> nat list \<Rightarrow> 8 word list list \<Rightarrow> pdu_t \<Rightarrow>
   pdsch_error + pdsch_state" where
  "save_inputs h old tb_list pdu =
     (case tb_list of
        [] \<Rightarrow> Inl Empty_tb_list
      | tb # _ \<Rightarrow>
          let i_cw = 0;
              n_layers = precoding_nof_layers pdu;
              nof_re_pdsch = compute_nof_data_re h (re_allocation_of pdu);
              n_ch_symbols = mul32 n_layers nof_re_pdsch;
              c_init = scrambler_init (rnti pdu) i_cw (n_id pdu);
              tbs_v = mul32 (length tb) 8;
              n_cb = compute_nof_codeblocks h tbs_v (ldpc_base_graph pdu)
          in if n_cb = 0 then Inl Division_by_zero
             else
               let nof_short_segments = sub32 n_cb (nof_re_pdsch mod n_cb);
                   nof_tb_crc_bits = compute_tb_crc_size h tbs_v;
                   nof_cb_crc_bits = (if n_cb > 1 then 24 else 0);
                   nof_tb_bits_out = add32 (add32 tbs_v nof_tb_crc_bits) (mul32 nof_cb_crc_bits n_cb);
                   cb_info = sub32 (divide_ceil nof_tb_bits_out n_cb) nof_cb_crc_bits;
                   lifting = compute_lifting_size h tbs_v (ldpc_base_graph pdu) n_cb;
                   seg_length = compute_codeblock_size h (ldpc_base_graph pdu) lifting
               in case codewords pdu of
                    [] \<Rightarrow> Inl Empty_codewords
                  | cw0 # _ \<Rightarrow>
                      let bits_per_symbol = get_bits_per_symbol h (modulation cw0);
                          full_codeblock_size =
                            compute_full_codeblock_size h (ldpc_base_graph pdu) seg_length;
                          cw_len = mul32 (mul32 nof_re_pdsch n_layers) bits_per_symbol;
                          zpad = sub32 (mul32 (add32 cb_info nof_cb_crc_bits) n_cb) nof_tb_bits_out;
                          N_ref = compute_N_ref h (tbs_lbrm pdu) n_cb;
                          md = \<lparr>base_graph = ldpc_base_graph pdu,
                                lifting_size = lifting,
                                md_rv = rv cw0,
                                md_mod = modulation cw0,
                                Nref = N_ref,
                                cw_length = cw_len,
                                full_length = full_codeblock_size,
                                md_rm_length = 0,
                                nof_filler_bits = sub32 (sub32 seg_length cb_info) nof_cb_crc_bits,
                                md_cw_offset = 0,
                                nof_crc_bits = nof_tb_crc_bits\<rparr>
                      in case rm_loop nof_re_pdsch n_cb nof_short_segments n_layers bits_per_symbol old of
                           (re_count_sum, rm, cw, re) \<Rightarrow>
                             if mul32 (mul32 re_count_sum n_layers) bits_per_symbol \<noteq> cw_len
                             then Inl Assert_rm_length_sum
                             else if start_symbol_index pdu + nof_symbols pdu > MAX_NSYMB_PER_SLOT
                             then Inl Assert_slot_boundary
                             else Inr \<lparr>data = tb,
                                       nof_ch_symbols = n_ch_symbols,
                                       scrambler_state = c_init,
                                       tbs = tbs_v,
                                       nof_cb = n_cb,
                                       cb_info_bits = cb_info,
                                       segment_length = seg_length,
                                       zero_pad = zpad,
                                       cb_metadata = md,
                                       rm_length = rm,
                                       cw_offset = cw,
                                       re_offset = re\<rparr>)"

text \<open>
  The length in resource elements that the loop gives to codeblock \<open>i_cb\<close>: short segments
  are rounded down, the others are rounded up.
\<close>

definition rm_length_re :: "nat \<Rightarrow> nat \<Rightarrow> nat \<Rightarrow> nat \<Rightarrow> nat" where
  "rm_length_re nof_re_pdsch n_cb nof_short_segments i_cb =
     (if i_cb < nof_short_segments then nof_re_pdsch div n_cb else divide_ceil nof_re_pdsch n_cb)"

subsection \<open>Sample inputs\<close>

text \<open>
  Small stand-ins for the helpers and a PDU, used to run the model on concrete inputs. The
  sample helper for the number of codeblocks uses a tiny segment size so that a transport
  block of seven bytes already splits into four codeblocks.
\<close>

definition sample_helpers :: pdsch_helpers where
  "sample_helpers =
     \<lparr>compute_nof_data_re =
        (\<lambda>(bs, bsz, fa, ss, ns, dm, cdm, res).
           12 * length (filter id fa) * ns - 6 * length (filter id fa)),
      compute_nof_codeblocks = (\<lambda>t bg. divide_ceil (t + 24) 24),
      compute_tb_crc_size = (\<lambda>t. if t > 3824 then 24 else 16),
      compute_lifting_size = (\<lambda>t bg n. 384),
      compute_codeblock_size = (\<lambda>bg l. 22 * l),
      compute_full_codeblock_size = (\<lambda>bg sz. 3 * sz),
      compute_N_ref = (\<lambda>l n. 25344),
      get_bits_per_symbol =
        (\<lambda>m. case m of QPSK \<Rightarrow> 2 | QAM16 \<Rightarrow> 4 | QAM64 \<Rightarrow> 6 | QAM256 \<Rightarrow> 8)\<rparr>"

definition sample_pdu :: pdu_t where
  "sample_pdu =
     \<lparr>rnti = 17921, n_id = 500, bwp_start_rb = 0, bwp_size_rb = 4,
      freq_alloc = [True, True, True, False], start_symbol_index = 2, nof_symbols = 3,
      dmrs_symbol_mask = [], nof_cdm_groups_without_data = 2, reserved = [], ptrs = True,
      codewords = [\<lparr>modulation = QPSK, rv = 0\<rparr>, \<lparr>modulation = QAM64, rv = 3\<rparr>],
      ldpc_base_graph = BG1, tbs_lbrm = 3168, precoding_nof_layers = 2\<rparr>"

definition sample_tbs :: "8 word list list" where
  "sample_tbs = [[9, 2, 3, 4, 5, 6, 7], [8]]"

definition sample_old :: "nat list \<times> nat list \<times> nat list" where
  "sample_old = ([], [7], [2, 3, 4, 5, 6, 7])"

definition sample_state :: pdsch_state where
  "sample_state =
     \<lparr>data = [9, 2, 3, 4, 5, 6, 7], nof_ch_symbols = 180, scrambler_state = 587235828,
      tbs = 56, nof_cb = 4, cb_info_bits = 18, segment_length = 8448, zero_pad = 0,
      cb_metadata =
        \<lparr>base_graph = BG1, lifting_size = 384, md_rv = 0, md_mod = QPSK, Nref = 25344,
         cw_length = 360, full_length = 25344, md_rm_length = 0, nof_filler_bits = 8406,
         md_cw_offset = 0, nof_crc_bits = 16\<rparr>,
      rm_length = [88, 88, 92, 92], cw_offset = [0, 88, 176, 268],
      re_offset = [0, 22, 44, 67]\<rparr>"

text \<open>The same PDU with a scrambling identity that has bit 15 set, and what it yields.\<close>

definition wide_n_id_pdu :: pdu_t where
  "wide_n_id_pdu = sample_pdu\<lparr>rnti := 1, n_id := 32768\<rparr>"

definition wide_n_id_state :: pdsch_state where
  "wide_n_id_state = sample_state\<lparr>scrambler_state := 65536\<rparr>"

section \<open>PDSCH processor: the concurrent part of \<^verbatim>\<open>process()\<close>\<close>

text \<open>
  \<^verbatim>\<open>process()\<close> and \<^verbatim>\<open>fork_cb_batches()\<close> hand tasks to an executor; the tasks and
  the calling thread share three atomic counters. The model is an interleaving semantics:
  one step is one atomic operation or one call to a collaborator, and a schedule chooses
  which thread moves next and whether the executor accepts a task.

  The trace records the calls to collaborators, most recent first: the PT-RS and DM-RS
  generators writing to the grid, the mapper writing the symbols of one codeblock (with the
  number of information bits given to the codeblock processor), the release of the
  transport block and the notification. \<open>Cb_fetched\<close> records the order of the atomic
  \<^verbatim>\<open>cb_counter.fetch_add(1)\<close> operations that returned an index in range.
\<close>

datatype event =
  Write_ptrs
  | Write_dmrs
  | Cb_fetched nat
  | Map_cb nat nat
  | Release_data
  | Notify

text \<open>
  The program counter of a task. \<open>Ptrs_work\<close> and \<open>Dmrs_work\<close> are the first
  statements of the two lambdas of \<^verbatim>\<open>process()\<close>; \<open>Cb_fetch\<close>, \<open>Cb_process\<close>,
  \<open>Cb_exit\<close> and \<open>Cb_release\<close> follow the lambda of \<^verbatim>\<open>fork_cb_batches()\<close>;
  \<open>Async_dec\<close> is \<^verbatim>\<open>async_task_counter.fetch_sub(1)\<close> and \<open>Do_notify\<close> the call
  \<^verbatim>\<open>notifier->on_finish_processing()\<close>, which all three kinds of task end with.
\<close>

datatype task_pc =
  Ptrs_work
  | Dmrs_work
  | Cb_fetch
  | Cb_process nat
  | Cb_exit
  | Cb_release
  | Async_dec
  | Do_notify
  | Task_done

record shared =
  async_task_counter :: nat
  cb_task_counter :: nat
  cb_counter :: nat
  trace :: "event list"

text \<open>
  \<^verbatim>\<open>std::min<units::bits>(cb_info_bits, tbs - cb_info_bits * absolute_i_cb)\<close>, in
  unsigned arithmetic.
\<close>

definition nof_info_bits :: "pdsch_state \<Rightarrow> nat \<Rightarrow> nat" where
  "nof_info_bits st absolute_i_cb =
     min (cb_info_bits st) (sub32 (tbs st) (mul32 (cb_info_bits st) absolute_i_cb))"

text \<open>One step of a task: the new program counter and the new shared state.\<close>

fun task_step :: "pdsch_state \<Rightarrow> task_pc \<Rightarrow> shared \<Rightarrow> task_pc \<times> shared" where
  "task_step st Ptrs_work sh = (Async_dec, sh\<lparr>trace := Write_ptrs # trace sh\<rparr>)"
| "task_step st Dmrs_work sh = (Async_dec, sh\<lparr>trace := Write_dmrs # trace sh\<rparr>)"
| "task_step st Cb_fetch sh =
     (let absolute_i_cb = cb_counter sh;
          sh' = sh\<lparr>cb_counter := add32 absolute_i_cb 1\<rparr>
      in if absolute_i_cb < nof_cb st
         then (Cb_process (nof_cb st - 1 - absolute_i_cb),
               sh'\<lparr>trace := Cb_fetched (nof_cb st - 1 - absolute_i_cb) # trace sh'\<rparr>)
         else (Cb_exit, sh'))"
| "task_step st (Cb_process absolute_i_cb) sh =
     (Cb_fetch, sh\<lparr>trace := Map_cb absolute_i_cb (nof_info_bits st absolute_i_cb) # trace sh\<rparr>)"
| "task_step st Cb_exit sh =
     (let old = cb_task_counter sh;
          sh' = sh\<lparr>cb_task_counter := sub32 old 1\<rparr>
      in (if old = 1 then Cb_release else Task_done, sh'))"
| "task_step st Cb_release sh = (Async_dec, sh\<lparr>trace := Release_data # trace sh\<rparr>)"
| "task_step st Async_dec sh =
     (let old = async_task_counter sh;
          sh' = sh\<lparr>async_task_counter := sub32 old 1\<rparr>
      in (if old = 1 then Do_notify else Task_done, sh'))"
| "task_step st Do_notify sh = (Task_done, sh\<lparr>trace := Notify # trace sh\<rparr>)"
| "task_step st Task_done sh = (Task_done, sh)"

text \<open>
  The program counter of the thread that runs \<^verbatim>\<open>process()\<close> after \<^verbatim>\<open>save_inputs\<close>
  and the validation: the store of 2 to \<^verbatim>\<open>async_task_counter\<close>, the test of
  \<^verbatim>\<open>config.ptrs\<close>, the three places where tasks are handed to the executor, and the
  stores at the beginning of \<^verbatim>\<open>fork_cb_batches()\<close>. A task that the executor does not
  take runs inline: it is kept in \<open>inline\<close> until it is done, and the caller continues
  afterwards.
\<close>

datatype main_pc =
  M_start
  | M_ptrs_check
  | M_ptrs_spawn
  | M_dmrs_spawn
  | M_fork
  | M_spawn nat
  | M_done

record conc_state =
  sh :: shared
  main :: main_pc
  inline :: "task_pc option"
  pool :: "task_pc list"

definition spawn :: "bool \<Rightarrow> task_pc \<Rightarrow> conc_state \<Rightarrow> conc_state" where
  "spawn enqueued t s = (if enqueued then s\<lparr>pool := pool s @ [t]\<rparr> else s\<lparr>inline := Some t\<rparr>)"

definition nof_cb_tasks :: "nat \<Rightarrow> pdsch_state \<Rightarrow> nat" where
  "nof_cb_tasks capacity st = min capacity (nof_cb st)"

definition main_step :: "bool \<Rightarrow> nat \<Rightarrow> pdsch_state \<Rightarrow> bool \<Rightarrow> conc_state \<Rightarrow> conc_state" where
  "main_step has_ptrs capacity st accept s =
     (case inline s of
        Some t \<Rightarrow>
          if t = Task_done then s\<lparr>inline := None\<rparr>
          else (case task_step st t (sh s) of (t', sh') \<Rightarrow> s\<lparr>inline := Some t', sh := sh'\<rparr>)
      | None \<Rightarrow>
          (case main s of
             M_start \<Rightarrow> s\<lparr>sh := (sh s)\<lparr>async_task_counter := 2\<rparr>, main := M_ptrs_check\<rparr>
           | M_ptrs_check \<Rightarrow>
               if has_ptrs
               then s\<lparr>sh := (sh s)\<lparr>async_task_counter := add32 (async_task_counter (sh s)) 1\<rparr>,
                      main := M_ptrs_spawn\<rparr>
               else s\<lparr>main := M_dmrs_spawn\<rparr>
           | M_ptrs_spawn \<Rightarrow> spawn (capacity > 1 \<and> accept) Ptrs_work (s\<lparr>main := M_dmrs_spawn\<rparr>)
           | M_dmrs_spawn \<Rightarrow> spawn accept Dmrs_work (s\<lparr>main := M_fork\<rparr>)
           | M_fork \<Rightarrow>
               s\<lparr>sh := (sh s)\<lparr>cb_task_counter := nof_cb_tasks capacity st, cb_counter := 0\<rparr>,
                 main := M_spawn 0\<rparr>
           | M_spawn i_task \<Rightarrow>
               if i_task \<noteq> nof_cb_tasks capacity st
               then spawn (nof_cb_tasks capacity st > 1 \<and> accept) Cb_fetch
                      (s\<lparr>main := M_spawn (i_task + 1)\<rparr>)
               else s\<lparr>main := M_done\<rparr>
           | M_done \<Rightarrow> s))"

text \<open>
  A schedule is a list of choices: the calling thread moves (the flag is the answer of
  \<^verbatim>\<open>executor.execute\<close>, should this step ask for it), or the task at a position of the
  pool moves.
\<close>

datatype choice = Main_step bool | Pool_step nat

definition exec_step :: "bool \<Rightarrow> nat \<Rightarrow> pdsch_state \<Rightarrow> choice \<Rightarrow> conc_state \<Rightarrow> conc_state" where
  "exec_step has_ptrs capacity st c s =
     (case c of
        Main_step accept \<Rightarrow> main_step has_ptrs capacity st accept s
      | Pool_step i \<Rightarrow>
          if i < length (pool s)
          then (case task_step st (pool s ! i) (sh s) of
                  (t', sh') \<Rightarrow> s\<lparr>pool := (pool s)[i := t'], sh := sh'\<rparr>)
          else s)"

definition run :: "bool \<Rightarrow> nat \<Rightarrow> pdsch_state \<Rightarrow> choice list \<Rightarrow> conc_state \<Rightarrow> conc_state" where
  "run has_ptrs capacity st sched s = fold (exec_step has_ptrs capacity st) sched s"

text \<open>
  The state at the entry of the concurrent part; the counters hold whatever the previous
  call left in them.
\<close>

definition init_state :: "nat \<Rightarrow> nat \<Rightarrow> nat \<Rightarrow> conc_state" where
  "init_state a b c =
     \<lparr>sh = \<lparr>async_task_counter = wrap32 a, cb_task_counter = wrap32 b, cb_counter = wrap32 c,
            trace = []\<rparr>,
      main = M_start, inline = None, pool = []\<rparr>"

definition finished :: "conc_state \<Rightarrow> bool" where
  "finished s \<longleftrightarrow> main s = M_done \<and> inline s = None \<and> (\<forall>t \<in> set (pool s). t = Task_done)"

subsection \<open>Invariants of the concurrent part\<close>

text \<open>
  The invariants are stated over the program counter of the thread that called
  \<^verbatim>\<open>process()\<close>, the multiset of the tasks that exist (queued, running or
  finished, inline or in the pool), and the shared counters and trace.
\<close>

fun async_debt :: "task_pc \<Rightarrow> nat" where
  "async_debt Ptrs_work = 1"
| "async_debt Dmrs_work = 1"
| "async_debt Cb_release = 1"
| "async_debt Async_dec = 1"
| "async_debt _ = 0"

fun in_loop :: "task_pc \<Rightarrow> nat" where
  "in_loop Cb_fetch = 1"
| "in_loop (Cb_process _) = 1"
| "in_loop Cb_exit = 1"
| "in_loop _ = 0"

fun active :: "task_pc \<Rightarrow> nat" where
  "active Cb_fetch = 1"
| "active (Cb_process _) = 1"
| "active _ = 0"

fun forked :: "main_pc \<Rightarrow> bool" where
  "forked (M_spawn _) = True"
| "forked M_done = True"
| "forked _ = False"

fun early :: "main_pc \<Rightarrow> bool" where
  "early M_start = True"
| "early M_ptrs_check = True"
| "early M_ptrs_spawn = True"
| "early _ = False"

fun spawned :: "nat \<Rightarrow> main_pc \<Rightarrow> nat" where
  "spawned K (M_spawn i) = i"
| "spawned K M_done = K"
| "spawned K _ = 0"

fun main_debt :: "main_pc \<Rightarrow> nat" where
  "main_debt M_ptrs_check = 2"
| "main_debt M_ptrs_spawn = 3"
| "main_debt M_dmrs_spawn = 2"
| "main_debt M_fork = 1"
| "main_debt _ = 0"

definition cb_debt :: "main_pc \<Rightarrow> shared \<Rightarrow> nat" where
  "cb_debt m s = (if forked m \<and> cb_task_counter s > 0 then 1 else 0)"

fun fetch_order :: "event list \<Rightarrow> nat list" where
  "fetch_order [] = []"
| "fetch_order (Cb_fetched j # es) = j # fetch_order es"
| "fetch_order (_ # es) = fetch_order es"

definition inv_types :: "shared \<Rightarrow> bool" where
  "inv_types s \<longleftrightarrow>
     async_task_counter s < 2 ^ 32 \<and> cb_task_counter s < 2 ^ 32 \<and> cb_counter s < 2 ^ 32"

definition inv_async :: "main_pc \<Rightarrow> task_pc multiset \<Rightarrow> shared \<Rightarrow> bool" where
  "inv_async m T s \<longleftrightarrow>
     (early m \<longrightarrow> T = {#} \<and> trace s = []) \<and>
     (m \<noteq> M_start \<longrightarrow>
        async_task_counter s = main_debt m + cb_debt m s + (\<Sum>t\<in>#T. async_debt t) \<and>
        count_list (trace s) Notify + count T Do_notify =
          (if async_task_counter s = 0 then 1 else 0)) \<and>
     (Notify \<in> set (trace s) \<longrightarrow> (\<exists>es. trace s = Notify # es))"

definition inv_unforked :: "main_pc \<Rightarrow> task_pc multiset \<Rightarrow> shared \<Rightarrow> bool" where
  "inv_unforked m T s \<longleftrightarrow>
     (\<not> forked m \<longrightarrow>
        (\<Sum>t\<in>#T. in_loop t) = 0 \<and> Cb_release \<notin># T \<and> fetch_order (trace s) = [] \<and>
        (\<forall>j x. Map_cb j x \<notin> set (trace s)) \<and> Release_data \<notin> set (trace s))"

definition inv_counts ::
  "nat \<Rightarrow> pdsch_state \<Rightarrow> main_pc \<Rightarrow> task_pc multiset \<Rightarrow> shared \<Rightarrow> bool" where
  "inv_counts capacity st m T s \<longleftrightarrow>
     (forked m \<longrightarrow>
        spawned (nof_cb_tasks capacity st) m \<le> nof_cb_tasks capacity st \<and>
        cb_task_counter s =
          nof_cb_tasks capacity st - spawned (nof_cb_tasks capacity st) m + (\<Sum>t\<in>#T. in_loop t) \<and>
        max (cb_counter s) (nof_cb st) + (\<Sum>t\<in>#T. active t) =
          nof_cb st + spawned (nof_cb_tasks capacity st) m \<and>
        count_list (trace s) Release_data + count T Cb_release =
          (if cb_task_counter s = 0 then 1 else 0))"

definition inv_map :: "pdsch_state \<Rightarrow> main_pc \<Rightarrow> task_pc multiset \<Rightarrow> shared \<Rightarrow> bool" where
  "inv_map st m T s \<longleftrightarrow>
     (forked m \<longrightarrow>
        (\<forall>j<nof_cb st.
           count_list (trace s) (Map_cb j (nof_info_bits st j)) + count T (Cb_process j) =
             (if nof_cb st \<le> j + cb_counter s then 1 else 0)) \<and>
        (\<forall>j. Cb_process j \<in># T \<longrightarrow> j < nof_cb st) \<and>
        (\<forall>j x. Map_cb j x \<in> set (trace s) \<longrightarrow> j < nof_cb st \<and> x = nof_info_bits st j) \<and>
        fetch_order (trace s) =
          rev (map (\<lambda>i. nof_cb st - 1 - i) [0..<min (cb_counter s) (nof_cb st)]))"

definition inv_writes :: "bool \<Rightarrow> main_pc \<Rightarrow> task_pc multiset \<Rightarrow> shared \<Rightarrow> bool" where
  "inv_writes has_ptrs m T s \<longleftrightarrow>
     (has_ptrs \<and> \<not> early m \<longrightarrow> Write_ptrs \<in> set (trace s) \<or> Ptrs_work \<in># T) \<and>
     (forked m \<or> m = M_fork \<longrightarrow> Write_dmrs \<in> set (trace s) \<or> Dmrs_work \<in># T)"

definition pdsch_inv ::
  "bool \<Rightarrow> nat \<Rightarrow> pdsch_state \<Rightarrow> main_pc \<Rightarrow> task_pc multiset \<Rightarrow> shared \<Rightarrow> bool" where
  "pdsch_inv has_ptrs capacity st m T s \<longleftrightarrow>
     inv_types s \<and> inv_async m T s \<and> inv_unforked m T s \<and> inv_counts capacity st m T s \<and>
     inv_map st m T s \<and>
     inv_writes has_ptrs m T s"

text \<open>
  The pool has at least one codeblock processor, and there is at least one codeblock (and
  fewer than \<open>2 ^ 31\<close>, so that \<^verbatim>\<open>cb_counter\<close> does not wrap around).
\<close>

definition cfg_ok :: "nat \<Rightarrow> pdsch_state \<Rightarrow> bool" where
  "cfg_ok capacity st \<longleftrightarrow> 1 \<le> capacity \<and> 1 \<le> nof_cb st \<and> nof_cb st < 2 ^ 31"

definition all_tasks :: "conc_state \<Rightarrow> task_pc multiset" where
  "all_tasks s = mset (pool s) + (case inline s of None \<Rightarrow> {#} | Some t \<Rightarrow> {#t#})"

definition state_inv :: "bool \<Rightarrow> nat \<Rightarrow> pdsch_state \<Rightarrow> conc_state \<Rightarrow> bool" where
  "state_inv hp cap st s \<longleftrightarrow> pdsch_inv hp cap st (main s) (all_tasks s) (sh s)"

subsection \<open>A bound on the number of steps that remain\<close>

fun task_rem :: "task_pc \<Rightarrow> nat" where
  "task_rem Task_done = 0"
| "task_rem Do_notify = 1"
| "task_rem Async_dec = 2"
| "task_rem Cb_release = 3"
| "task_rem Ptrs_work = 3"
| "task_rem Dmrs_work = 3"
| "task_rem Cb_exit = 4"
| "task_rem Cb_fetch = 5"
| "task_rem (Cb_process _) = 6"

fun main_rem :: "nat \<Rightarrow> nat \<Rightarrow> main_pc \<Rightarrow> nat" where
  "main_rem K N M_done = 0"
| "main_rem K N (M_spawn i) = 7 * (K - i) + 1"
| "main_rem K N M_fork = 7 * K + 2 * N + 2"
| "main_rem K N M_dmrs_spawn = 7 * K + 2 * N + 7"
| "main_rem K N M_ptrs_spawn = 7 * K + 2 * N + 12"
| "main_rem K N M_ptrs_check = 7 * K + 2 * N + 13"
| "main_rem K N M_start = 7 * K + 2 * N + 14"

definition cb_term :: "pdsch_state \<Rightarrow> main_pc \<Rightarrow> shared \<Rightarrow> nat" where
  "cb_term st m s = (if forked m then 2 * (nof_cb st - cb_counter s) else 0)"

definition steps_left :: "nat \<Rightarrow> pdsch_state \<Rightarrow> conc_state \<Rightarrow> nat" where
  "steps_left cap st s =
     main_rem (nof_cb_tasks cap st) (nof_cb st) (main s) +
     (case inline s of None \<Rightarrow> 0 | Some t \<Rightarrow> task_rem t + 1) +
     sum_list (map task_rem (pool s)) + cb_term st (main s) (sh s)"

subsection \<open>A sample schedule\<close>

text \<open>
  A schedule for the sample state, a PT-RS configuration and a pool of capacity two: the
  executor accepts the PT-RS task and the first codeblock worker, and rejects the DM-RS task
  and the second codeblock worker, which therefore run inline.
\<close>

definition sample_schedule :: "choice list" where
  "sample_schedule =
     [Main_step True, Main_step True, Main_step True, Main_step False, Pool_step 0,
      Main_step False, Main_step False, Pool_step 0, Main_step False, Main_step False,
      Main_step True, Main_step False, Pool_step 1, Main_step False, Main_step False,
      Pool_step 1, Main_step False, Pool_step 1, Pool_step 1, Main_step False, Main_step False,
      Main_step False, Main_step False, Main_step False, Pool_step 1, Pool_step 1, Pool_step 1,
      Pool_step 1, Pool_step 1]"

definition sample_final :: conc_state where
  "sample_final =
     \<lparr>sh = \<lparr>async_task_counter = 0, cb_task_counter = 0, cb_counter = 6,
            trace = [Notify, Release_data, Map_cb 1 18, Map_cb 0 18, Cb_fetched 0, Cb_fetched 1,
                     Map_cb 3 2, Map_cb 2 18, Cb_fetched 2, Cb_fetched 3, Write_dmrs,
                     Write_ptrs]\<rparr>,
      main = M_done, inline = None, pool = [Task_done, Task_done]\<rparr>"

section \<open>CU-CP UE manager\<close>

text \<open>
  The sentinel values (\<^verbatim>\<open>ue_index_t::invalid\<close>, \<^verbatim>\<open>INVALID_PCI\<close>,
  \<^verbatim>\<open>rnti_t::INVALID_RNTI\<close>, \<^verbatim>\<open>gnb_du_id_t::invalid\<close>), the configured maximum number of
  UEs and \<^verbatim>\<open>generate_ue_index\<close> are declared in headers that are not part of the sources
  at hand; they are parameters of the model.
\<close>

record ue_consts =
  invalid_ue_index :: nat
  INVALID_PCI :: nat
  INVALID_RNTI :: nat
  invalid_du_id :: nat
  max_nof_supported_ues :: nat
  generate_ue_index :: "nat \<Rightarrow> nat \<Rightarrow> nat"

record cu_cp_ue =
  ue_index :: nat
  ue_du_index :: nat
  ue_du_id :: nat
  ue_pci :: nat
  ue_c_rnti :: nat

text \<open>
  Modelled from the spec: the constructor of \<^verbatim>\<open>cu_cp_ue\<close> and \<^verbatim>\<open>update_du_ue\<close> are
  defined in \<^verbatim>\<open>ue_manager_impl.h\<close>, which is not part of the sources at hand. The UE
  record of the specification has the fields UE index, DU index, gNB-DU id ("set after F1 UE
  Context established"), PCI and C-RNTI; a new record has none of the last three yet, and
  \<^verbatim>\<open>update_du_ue\<close> stores them.
\<close>

definition new_cu_cp_ue :: "ue_consts \<Rightarrow> nat \<Rightarrow> nat \<Rightarrow> cu_cp_ue" where
  "new_cu_cp_ue C new_ue_index du_index_v =
     \<lparr>ue_index = new_ue_index, ue_du_index = du_index_v, ue_du_id = invalid_du_id C,
      ue_pci = INVALID_PCI C, ue_c_rnti = INVALID_RNTI C\<rparr>"

definition update_du_ue :: "nat \<Rightarrow> nat \<Rightarrow> nat \<Rightarrow> cu_cp_ue \<Rightarrow> cu_cp_ue" where
  "update_du_ue du_id pci c_rnti ue = ue\<lparr>ue_du_id := du_id, ue_pci := pci, ue_c_rnti := c_rnti\<rparr>"

text \<open>
  The two containers of the manager are association lists read with \<^const>\<open>map_of\<close>;
  \<open>emplace\<close> does not overwrite an existing key, \<open>erase\<close> removes a key.
\<close>

record ue_manager =
  ues :: "(nat \<times> cu_cp_ue) list"
  pci_rnti_to_ue_index :: "((nat \<times> nat) \<times> nat) list"

definition emplace :: "'k \<Rightarrow> 'v \<Rightarrow> ('k \<times> 'v) list \<Rightarrow> ('k \<times> 'v) list" where
  "emplace k v xs = (if map_of xs k = None then xs @ [(k, v)] else xs)"

definition erase :: "'k \<Rightarrow> ('k \<times> 'v) list \<Rightarrow> ('k \<times> 'v) list" where
  "erase k xs = filter (\<lambda>kv. fst kv \<noteq> k) xs"

definition update_at :: "'k \<Rightarrow> ('v \<Rightarrow> 'v) \<Rightarrow> ('k \<times> 'v) list \<Rightarrow> ('k \<times> 'v) list" where
  "update_at k f xs = map (\<lambda>kv. if fst kv = k then (fst kv, f (snd kv)) else kv) xs"

definition ue_manager_empty :: ue_manager where
  "ue_manager_empty = \<lparr>ues = [], pci_rnti_to_ue_index = []\<rparr>"

text \<open>
  \<^verbatim>\<open>allocate_ue_index\<close>: the first index \<^verbatim>\<open>generate_ue_index(du_index, i)\<close>, for
  \<open>i\<close> from 0 below the maximum, that is not in the UE map. (The loop counter of the code is
  a \<^verbatim>\<open>uint16_t\<close>; the model is the code for a maximum of at most \<open>65536\<close>.)
\<close>

definition allocate_ue_index :: "ue_consts \<Rightarrow> nat \<Rightarrow> ue_manager \<Rightarrow> nat" where
  "allocate_ue_index C du_index_v mgr =
     (case find (\<lambda>new_ue_index. map_of (ues mgr) new_ue_index = None)
             (map (generate_ue_index C du_index_v) [0..<max_nof_supported_ues C]) of
        Some new_ue_index \<Rightarrow> new_ue_index
      | None \<Rightarrow> invalid_ue_index C)"

definition add_ue :: "ue_consts \<Rightarrow> nat \<Rightarrow> ue_manager \<Rightarrow> nat \<times> ue_manager" where
  "add_ue C du_index_v mgr =
     (if length (ues mgr) = max_nof_supported_ues C then (invalid_ue_index C, mgr)
      else
        let new_ue_index = allocate_ue_index C du_index_v mgr
        in if new_ue_index = invalid_ue_index C then (invalid_ue_index C, mgr)
           else (new_ue_index,
                 mgr\<lparr>ues := emplace new_ue_index (new_cu_cp_ue C new_ue_index du_index_v) (ues mgr)\<rparr>))"

definition remove_ue :: "ue_consts \<Rightarrow> nat \<Rightarrow> ue_manager \<Rightarrow> ue_manager" where
  "remove_ue C ue_index_v mgr =
     (if ue_index_v = invalid_ue_index C then mgr
      else
        case map_of (ues mgr) ue_index_v of
          None \<Rightarrow> mgr
        | Some ue \<Rightarrow>
            let mgr' =
                  (if ue_pci ue \<noteq> INVALID_PCI C \<and> ue_c_rnti ue \<noteq> INVALID_RNTI C
                   then mgr\<lparr>pci_rnti_to_ue_index :=
                               erase (ue_pci ue, ue_c_rnti ue) (pci_rnti_to_ue_index mgr)\<rparr>
                   else mgr)
            in mgr'\<lparr>ues := erase ue_index_v (ues mgr')\<rparr>)"

definition get_ue_index :: "ue_consts \<Rightarrow> nat \<Rightarrow> nat \<Rightarrow> ue_manager \<Rightarrow> nat" where
  "get_ue_index C pci c_rnti mgr =
     (case map_of (pci_rnti_to_ue_index mgr) (pci, c_rnti) of
        Some ue_index_v \<Rightarrow> ue_index_v
      | None \<Rightarrow> invalid_ue_index C)"

definition find_ue :: "nat \<Rightarrow> ue_manager \<Rightarrow> cu_cp_ue option" where
  "find_ue ue_index_v mgr = map_of (ues mgr) ue_index_v"

datatype ue_manager_error = Assertion_failed

text \<open>
  \<^verbatim>\<open>set_ue_du_context\<close>: \<open>None\<close> is the null pointer that the code returns when it
  refuses; a failed assertion is an error.
\<close>

definition set_ue_du_context ::
  "ue_consts \<Rightarrow> nat \<Rightarrow> nat \<Rightarrow> nat \<Rightarrow> nat \<Rightarrow> ue_manager \<Rightarrow>
   ue_manager_error + (cu_cp_ue option \<times> ue_manager)" where
  "set_ue_du_context C ue_index_v du_id pci c_rnti mgr =
     (if ue_index_v = invalid_ue_index C \<or> pci = INVALID_PCI C \<or> c_rnti = INVALID_RNTI C
      then Inl Assertion_failed
      else
        case map_of (ues mgr) ue_index_v of
          None \<Rightarrow> Inr (None, mgr)
        | Some ue \<Rightarrow>
            if get_ue_index C pci c_rnti mgr \<noteq> invalid_ue_index C then Inr (None, mgr)
            else
              let ue' = update_du_ue du_id pci c_rnti ue
              in Inr (Some ue',
                      mgr\<lparr>ues := update_at ue_index_v (update_du_ue du_id pci c_rnti) (ues mgr),
                          pci_rnti_to_ue_index :=
                            emplace (pci, c_rnti) ue_index_v (pci_rnti_to_ue_index mgr)\<rparr>))"

text \<open>Sequences of calls to the operations that change the manager.\<close>

datatype ue_op =
  Add_ue nat
  | Remove_ue nat
  | Set_ue_du_context nat nat nat nat

fun apply_ue_op :: "ue_consts \<Rightarrow> ue_op \<Rightarrow> ue_manager \<Rightarrow> ue_manager_error + ue_manager" where
  "apply_ue_op C (Add_ue du_index_v) mgr = Inr (snd (add_ue C du_index_v mgr))"
| "apply_ue_op C (Remove_ue ue_index_v) mgr = Inr (remove_ue C ue_index_v mgr)"
| "apply_ue_op C (Set_ue_du_context ue_index_v du_id pci c_rnti) mgr =
     (case set_ue_du_context C ue_index_v du_id pci c_rnti mgr of
        Inl e \<Rightarrow> Inl e
      | Inr (_, mgr') \<Rightarrow> Inr mgr')"

fun apply_ue_ops :: "ue_consts \<Rightarrow> ue_op list \<Rightarrow> ue_manager \<Rightarrow> ue_manager_error + ue_manager" where
  "apply_ue_ops C [] mgr = Inr mgr"
| "apply_ue_ops C (x # xs) mgr =
     (case apply_ue_op C x mgr of Inl e \<Rightarrow> Inl e | Inr mgr' \<Rightarrow> apply_ue_ops C xs mgr')"

text \<open>
  The invariant of the manager: every UE whose record has a PCI and a C-RNTI is found under
  them in the lookup, and the lookup never holds the invalid index.
\<close>

definition ue_inv :: "ue_consts \<Rightarrow> ue_manager \<Rightarrow> bool" where
  "ue_inv C mgr \<longleftrightarrow>
     (\<forall>i ue. map_of (ues mgr) i = Some ue \<and> ue_pci ue \<noteq> INVALID_PCI C \<and>
             ue_c_rnti ue \<noteq> INVALID_RNTI C \<longrightarrow>
             map_of (pci_rnti_to_ue_index mgr) (ue_pci ue, ue_c_rnti ue) = Some i) \<and>
     (\<forall>k i. map_of (pci_rnti_to_ue_index mgr) k = Some i \<longrightarrow> i \<noteq> invalid_ue_index C)"

subsection \<open>A sample run of the UE manager\<close>

definition sample_ue_consts :: ue_consts where
  "sample_ue_consts =
     \<lparr>invalid_ue_index = 65535, INVALID_PCI = 1008, INVALID_RNTI = 0, invalid_du_id = 68719476736,
      max_nof_supported_ues = 4, generate_ue_index = (\<lambda>du i. du * 4 + i)\<rparr>"

definition sample_ue_ops :: "ue_op list" where
  "sample_ue_ops =
     [Add_ue 0, Add_ue 0, Set_ue_du_context 0 85 2 17921, Set_ue_du_context 1 85 2 17921,
      Set_ue_du_context 1 85 2 17922, Add_ue 0, Remove_ue 2]"

definition sample_ue_manager :: ue_manager where
  "sample_ue_manager =
     \<lparr>ues = [(0, \<lparr>ue_index = 0, ue_du_index = 0, ue_du_id = 85, ue_pci = 2, ue_c_rnti = 17921\<rparr>),
             (1, \<lparr>ue_index = 1, ue_du_index = 0, ue_du_id = 85, ue_pci = 2, ue_c_rnti = 17922\<rparr>)],
      pci_rnti_to_ue_index = [((2, 17921), 0), ((2, 17922), 1)]\<rparr>"

subsection \<open>Setting the DU context of a UE more than once\<close>

text \<open>
  A sequence of calls sets the DU context of every UE at most once when each call of
  \<^verbatim>\<open>set_ue_du_context\<close> finds a UE whose record has no PCI and no C-RNTI yet, or no UE.
\<close>

fun sets_once :: "ue_consts \<Rightarrow> ue_op list \<Rightarrow> ue_manager \<Rightarrow> bool" where
  "sets_once C [] mgr = True"
| "sets_once C (x # xs) mgr =
     ((case x of
         Set_ue_du_context ue_index_v du pci c_rnti \<Rightarrow>
           (case find_ue ue_index_v mgr of
              None \<Rightarrow> True
            | Some ue \<Rightarrow> ue_pci ue = INVALID_PCI C \<and> ue_c_rnti ue = INVALID_RNTI C)
       | _ \<Rightarrow> True) \<and>
      (case apply_ue_op C x mgr of Inl e \<Rightarrow> True | Inr mgr' \<Rightarrow> sets_once C xs mgr'))"

text \<open>
  The other direction of the invariant: every entry of the lookup leads to a UE of the UE
  map whose record holds the key of the entry.
\<close>

definition lookup_inv :: "ue_consts \<Rightarrow> ue_manager \<Rightarrow> bool" where
  "lookup_inv C mgr \<longleftrightarrow>
     (\<forall>pci c_rnti i. map_of (pci_rnti_to_ue_index mgr) (pci, c_rnti) = Some i \<longrightarrow>
        pci \<noteq> INVALID_PCI C \<and> c_rnti \<noteq> INVALID_RNTI C \<and>
        (\<exists>ue. map_of (ues mgr) i = Some ue \<and> ue_pci ue = pci \<and> ue_c_rnti ue = c_rnti))"

text \<open>A UE whose DU context is set twice, and then removed.\<close>

definition stale_ue_ops :: "ue_op list" where
  "stale_ue_ops = [Add_ue 0, Set_ue_du_context 0 5 2 21, Set_ue_du_context 0 5 2 22]"

definition stale_ue_manager :: ue_manager where
  "stale_ue_manager =
     \<lparr>ues = [(0, \<lparr>ue_index = 0, ue_du_index = 0, ue_du_id = 5, ue_pci = 2, ue_c_rnti = 22\<rparr>)],
      pci_rnti_to_ue_index = [((2, 21), 0), ((2, 22), 0)]\<rparr>"

definition dangling_ue_manager :: ue_manager where
  "dangling_ue_manager = \<lparr>ues = [], pci_rnti_to_ue_index = [((2, 21), 0)]\<rparr>"

section \<open>CU-UP F1-U bearer: destruction\<close>

text \<open>
  The data members of \<^verbatim>\<open>f1u_bearer_impl\<close>, in the order of their declaration. The four
  references and the TEID own nothing; the logger, the timer and the discard blocks do.
\<close>

datatype f1u_member =
  Logger
  | Tx_pdu_notifier
  | Rx_delivery_notifier
  | Rx_sdu_notifier
  | Disconnector
  | Ul_teid
  | Dl_notif_timer
  | Discard_blocks

definition f1u_bearer_members :: "f1u_member list" where
  "f1u_bearer_members =
     [Logger, Tx_pdu_notifier, Rx_delivery_notifier, Rx_sdu_notifier, Disconnector, Ul_teid,
      Dl_notif_timer, Discard_blocks]"

record f1u_bearer_impl =
  ul_teid :: nat
  dl_notif_timer :: nat
  discard_blocks :: "nat list"

datatype f1u_event =
  Disconnect_cu_bearer nat
  | Destroy_member f1u_member

text \<open>
  What the CU-UP holds around a bearer: the GTP-U demux (TEID to bearer), the running timers,
  and the pending discard blocks of the bearer.
\<close>

record cu_up_world =
  demux :: "(nat \<times> nat) list"
  running_timers :: "nat list"
  pending_discards :: "nat list"

text \<open>
  Destruction of an object: the body of the destructor, which is
  \<^verbatim>\<open>disconnector.disconnect_cu_bearer(ul_teid)\<close>, and then the destructors of the members
  in the reverse order of their declaration.
\<close>

definition destructor_body :: "f1u_bearer_impl \<Rightarrow> f1u_event list" where
  "destructor_body b = [Disconnect_cu_bearer (ul_teid b)]"

definition destroy_f1u_bearer :: "f1u_bearer_impl \<Rightarrow> f1u_event list" where
  "destroy_f1u_bearer b = destructor_body b @ map Destroy_member (rev f1u_bearer_members)"

text \<open>
  Modelled from the spec: the implementation of \<^verbatim>\<open>f1u_bearer_disconnector\<close> is not part
  of the sources at hand; according to the specification it deregisters the uplink TEID
  from the demux. The destructor of the timer stops it, the one of the discard blocks frees
  them.
\<close>

fun apply_f1u_event :: "f1u_bearer_impl \<Rightarrow> f1u_event \<Rightarrow> cu_up_world \<Rightarrow> cu_up_world" where
  "apply_f1u_event b (Disconnect_cu_bearer teid) w = w\<lparr>demux := erase teid (demux w)\<rparr>"
| "apply_f1u_event b (Destroy_member Dl_notif_timer) w =
     w\<lparr>running_timers := removeAll (dl_notif_timer b) (running_timers w)\<rparr>"
| "apply_f1u_event b (Destroy_member Discard_blocks) w = w\<lparr>pending_discards := []\<rparr>"
| "apply_f1u_event b (Destroy_member _) w = w"

text \<open>The states that the world goes through while the events happen.\<close>

fun world_states :: "f1u_bearer_impl \<Rightarrow> f1u_event list \<Rightarrow> cu_up_world \<Rightarrow> cu_up_world list" where
  "world_states b [] w = [w]"
| "world_states b (e # es) w = w # world_states b es (apply_f1u_event b e w)"

section \<open>CU-CP: F1 Setup admission\<close>

text \<open>
  Modelled from the spec: the handler of the F1 Setup Request lives in the DU processor of
  the CU-CP, which is not part of the sources at hand (only the connectivity test is). The
  definitions of this section follow the specification, section "F1 Setup admission": "On
  TNL accept: create an anonymous DU slot (id = invalid). On F1 Setup Request: if NG is not
  connected, respond F1 Setup Failure; if another live DU has the same gNB-DU id, failure;
  if gNB-id in the NR cell identity does not match local gNB-id, failure; else assign DU-id,
  record cells, respond F1 Setup Response."
\<close>

record du_slot =
  gnb_du_id :: "nat option"
  du_cells :: "nat list"

record f1_setup_request =
  req_gnb_du_id :: nat
  req_cells :: "nat list"

datatype f1_setup_outcome = F1_setup_response | F1_setup_failure

text \<open>
  The local gNB-id and the function that extracts the gNB-id from an NR cell identity are
  configuration.
\<close>

record cu_cp_config =
  local_gnb_id :: nat
  gnb_id_of_nci :: "nat \<Rightarrow> nat"
  max_nof_dus :: nat

record cu_cp_f1_state =
  ng_connected :: bool
  dus :: "(nat \<times> du_slot) list"

definition other_du_has_id :: "nat \<Rightarrow> nat \<Rightarrow> cu_cp_f1_state \<Rightarrow> bool" where
  "other_du_has_id du_index_v g s \<longleftrightarrow>
     list_ex (\<lambda>kv. fst kv \<noteq> du_index_v \<and> gnb_du_id (snd kv) = Some g) (dus s)"

definition gnb_id_mismatch :: "cu_cp_config \<Rightarrow> f1_setup_request \<Rightarrow> bool" where
  "gnb_id_mismatch cfg req \<longleftrightarrow>
     list_ex (\<lambda>nci. gnb_id_of_nci cfg nci \<noteq> local_gnb_id cfg) (req_cells req)"

definition handle_tnl_accept :: "cu_cp_config \<Rightarrow> nat \<Rightarrow> cu_cp_f1_state \<Rightarrow> bool \<times> cu_cp_f1_state" where
  "handle_tnl_accept cfg du_index_v s =
     (if length (dus s) \<ge> max_nof_dus cfg \<or> map_of (dus s) du_index_v \<noteq> None then (False, s)
      else (True, s\<lparr>dus := dus s @ [(du_index_v, \<lparr>gnb_du_id = None, du_cells = []\<rparr>)]\<rparr>))"

definition handle_f1_setup_request ::
  "cu_cp_config \<Rightarrow> nat \<Rightarrow> f1_setup_request \<Rightarrow> cu_cp_f1_state \<Rightarrow>
   f1_setup_outcome \<times> cu_cp_f1_state" where
  "handle_f1_setup_request cfg du_index_v req s =
     (if \<not> ng_connected s then (F1_setup_failure, s)
      else if other_du_has_id du_index_v (req_gnb_du_id req) s then (F1_setup_failure, s)
      else if gnb_id_mismatch cfg req then (F1_setup_failure, s)
      else (F1_setup_response,
            s\<lparr>dus := update_at du_index_v
                        (\<lambda>slot. slot\<lparr>gnb_du_id := Some (req_gnb_du_id req), du_cells := req_cells req\<rparr>)
                        (dus s)\<rparr>))"

text \<open>The scenarios of the connectivity test: two DUs that send the same gNB-DU id.\<close>

definition sample_cu_cp_config :: cu_cp_config where
  "sample_cu_cp_config =
     \<lparr>local_gnb_id = 411, gnb_id_of_nci = (\<lambda>nci. nci div 16384), max_nof_dus = 8\<rparr>"

definition sample_f1_setup_request :: f1_setup_request where
  "sample_f1_setup_request = \<lparr>req_gnb_du_id = 85, req_cells = [6733824]\<rparr>"

definition two_dus_connected :: cu_cp_f1_state where
  "two_dus_connected =
     \<lparr>ng_connected = True,
      dus = [(0, \<lparr>gnb_du_id = None, du_cells = []\<rparr>), (1, \<lparr>gnb_du_id = None, du_cells = []\<rparr>)]\<rparr>"

definition first_du_set_up :: cu_cp_f1_state where
  "first_du_set_up =
     \<lparr>ng_connected = True,
      dus = [(0, \<lparr>gnb_du_id = Some 85, du_cells = [6733824]\<rparr>), (1, \<lparr>gnb_du_id = None, du_cells = []\<rparr>)]\<rparr>"

section \<open>CU-CP: UE attach\<close>

text \<open>
  Modelled from the spec: the handlers of the F1AP Initial UL RRC Message Transfer and of
  the F1AP UE Context Release Complete live in the CU-CP and its F1AP and RRC layers, which
  are not part of the sources at hand (only the connectivity test is). The definitions of
  this section follow the specification, section "UE attach", on top of the UE manager of
  the sources: "If (PCI, C-RNTI) already maps to a UE, reject. Allocate ue_index [...].
  Create UE record and task scheduler; install mapping (PCI, C-RNTI) to ue_index. If no E1
  (no CU-UP) is available, send F1AP UE Context Release Command containing an RRC Reject on
  SRB0; defer UE removal until F1AP UE Context Release Complete arrives; emit no NGAP PDU.
  Otherwise proceed with RRC Setup on SRB0 via F1AP DL RRC Message Transfer." A rejected
  message leaves the state as it is. The gNB-CU UE F1AP id of a UE is its UE index.
\<close>

datatype dl_ccch_msg = Rrc_reject | Rrc_setup

datatype srb_id_t = Srb0 | Srb1 | Srb2

datatype f1ap_pdu =
  Ue_context_release_cmd nat nat dl_ccch_msg srb_id_t
  | Dl_rrc_message_transfer nat nat dl_ccch_msg srb_id_t

datatype ngap_pdu = Ng_setup_request | Initial_ue_message nat

record cu_cp_state =
  f1 :: cu_cp_f1_state
  cu_ups :: "(nat \<times> bool) list"
  ue_mng :: ue_manager
  f1ap_tx :: "(nat \<times> f1ap_pdu) list"
  ngap_tx :: "ngap_pdu list"

definition e1_available :: "cu_cp_state \<Rightarrow> bool" where
  "e1_available s \<longleftrightarrow> list_ex snd (cu_ups s)"

definition handle_init_ul_rrc_message_transfer ::
  "ue_consts \<Rightarrow> nat \<Rightarrow> nat \<Rightarrow> nat \<Rightarrow> nat \<Rightarrow> cu_cp_state \<Rightarrow> ue_manager_error + cu_cp_state" where
  "handle_init_ul_rrc_message_transfer C du_index_v du_ue_f1ap_id pci c_rnti s =
     (case map_of (dus (f1 s)) du_index_v of
        None \<Rightarrow> Inr s
      | Some slot \<Rightarrow>
          (case gnb_du_id slot of
             None \<Rightarrow> Inr s
           | Some g \<Rightarrow>
               if get_ue_index C pci c_rnti (ue_mng s) \<noteq> invalid_ue_index C then Inr s
               else
                 let (new_ue_index, mgr1) = add_ue C du_index_v (ue_mng s)
                 in if new_ue_index = invalid_ue_index C then Inr s
                    else
                      case set_ue_du_context C new_ue_index g pci c_rnti mgr1 of
                        Inl e \<Rightarrow> Inl e
                      | Inr (_, mgr2) \<Rightarrow>
                          Inr (s\<lparr>ue_mng := mgr2,
                                 f1ap_tx := f1ap_tx s @
                                   [(du_index_v,
                                     if e1_available s
                                     then Dl_rrc_message_transfer new_ue_index du_ue_f1ap_id
                                            Rrc_setup Srb0
                                     else Ue_context_release_cmd new_ue_index du_ue_f1ap_id
                                            Rrc_reject Srb0)]\<rparr>)))"

definition handle_ue_context_release_complete ::
  "ue_consts \<Rightarrow> nat \<Rightarrow> nat \<Rightarrow> cu_cp_state \<Rightarrow> cu_cp_state" where
  "handle_ue_context_release_complete C cu_ue_f1ap_id du_ue_f1ap_id s =
     s\<lparr>ue_mng := remove_ue C cu_ue_f1ap_id (ue_mng s)\<rparr>"

text \<open>
  The scenario of the connectivity test: NG and F1 are up, there is no CU-UP, and a UE with
  the DU UE F1AP id 0 and the C-RNTI \<open>0x4601\<close> sends its first message.
\<close>

definition sample_cu_cp_state :: cu_cp_state where
  "sample_cu_cp_state =
     \<lparr>f1 = \<lparr>ng_connected = True, dus = [(0, \<lparr>gnb_du_id = Some 85, du_cells = [6733824]\<rparr>)]\<rparr>,
      cu_ups = [], ue_mng = ue_manager_empty, f1ap_tx = [], ngap_tx = [Ng_setup_request]\<rparr>"

definition sample_ue_rejected :: cu_cp_state where
  "sample_ue_rejected =
     sample_cu_cp_state
       \<lparr>ue_mng := \<lparr>ues = [(0, \<lparr>ue_index = 0, ue_du_index = 0, ue_du_id = 85, ue_pci = 2,
                                ue_c_rnti = 17921\<rparr>)],
                   pci_rnti_to_ue_index = [((2, 17921), 0)]\<rparr>,
        f1ap_tx := [(0, Ue_context_release_cmd 0 0 Rrc_reject Srb0)]\<rparr>"

section \<open>Proofs: arithmetic modulo \<open>2 ^ 32\<close>\<close>

lemma wrap32_less: "x < 2 ^ 32 \<Longrightarrow> wrap32 x = x"
  by (simp add: wrap32_def)

lemma mul32_mul32: "mul32 (mul32 a b) c = wrap32 (a * b * c)"
  by (simp add: mul32_def wrap32_def mod_mult_left_eq)

lemma add32_wrap32: "add32 (wrap32 a) b = wrap32 (a + b)"
  by (simp add: add32_def wrap32_def mod_add_left_eq)

lemma sub_mod_aux:
  fixes a b M :: nat
  assumes "b \<le> a" "a < M"
  shows "(a mod M + M - b mod M) mod M = a - b"
proof -
  have "a mod M + M - b mod M = (a - b) + M" using assms by simp
  then have "(a mod M + M - b mod M) mod M = ((a - b) + M) mod M" by (rule arg_cong)
  also have "\<dots> = (a - b) mod M" by (rule mod_add_self2)
  also have "\<dots> = a - b" using assms by simp
  finally show ?thesis .
qed

lemma sub32_le: "b \<le> a \<Longrightarrow> a < 2 ^ 32 \<Longrightarrow> sub32 a b = a - b"
  unfolding sub32_def wrap32_def by (rule sub_mod_aux)

lemma divide_ceil_exact:
  assumes "0 < n" "m mod n = 0"
  shows "divide_ceil m n = m div n"
proof -
  have m: "m = (m div n) * n" using assms(2) by (metis add.right_neutral div_mult_mod_eq)
  have "((m div n) * n + (n - 1)) div n = m div n + (n - 1) div n"
    using assms(1) by (simp only: div_mult_self3)
  also have "(n - 1) div n = 0" using assms(1) by simp
  finally have "((m div n) * n + (n - 1)) div n = m div n" by simp
  with m show ?thesis unfolding divide_ceil_def by simp
qed

lemma divide_ceil_inexact:
  assumes "0 < n" "m mod n \<noteq> 0"
  shows "divide_ceil m n = Suc (m div n)"
proof -
  let ?r = "m mod n" and ?q = "m div n"
  have "?r < n" using assms(1) by simp
  with assms(2) have one: "(?r + (n - 1)) div n = 1"
    by (intro div_nat_eqI) simp_all
  have "m + (n - 1) = ?q * n + (?r + (n - 1))"
    by (simp add: add.assoc)
  then have "(m + (n - 1)) div n = (?q * n + (?r + (n - 1))) div n" by (rule arg_cong)
  also have "\<dots> = ?q + (?r + (n - 1)) div n"
    using assms(1) by (simp only: div_mult_self3)
  finally show ?thesis unfolding divide_ceil_def using one by simp
qed

section \<open>Proofs: evaluation of the sample inputs\<close>

lemma list_update_Cons_numeral: "(x # xs)[numeral k := y] = x # xs[pred_numeral k := y]"
  by (simp add: numeral_eq_Suc)

lemma replicate_numeral_Cons: "replicate (numeral k) x = x # replicate (pred_numeral k) x"
  by (simp add: numeral_eq_Suc)

lemma upt_0_4: "[0..<4] = [0, 1, 2, 3]"
  by (simp add: upt_rec)

lemma sample_rm_loop:
  "rm_loop 90 4 2 2 2 sample_old =
     (90, [88, 88, 92, 92], [0, 88, 176, 268], [0, 22, 44, 67])"
  by (simp add: rm_loop_def rm_step_def resize_def upt_0_4 divide_ceil_def mul32_def add32_def
      wrap32_less sample_old_def list_update_Cons_numeral replicate_numeral_Cons)

lemma sample_save_inputs:
  "save_inputs sample_helpers sample_old sample_tbs sample_pdu = Inr sample_state"
  by (simp add: save_inputs_def sample_helpers_def sample_pdu_def sample_tbs_def Let_def
      re_allocation_of_def sample_rm_loop divide_ceil_def mul32_def add32_def sub32_def
      wrap32_def scrambler_init_def MAX_NSYMB_PER_SLOT_def sample_state_def)

lemma wide_n_id_save_inputs:
  "save_inputs sample_helpers sample_old sample_tbs wide_n_id_pdu = Inr wide_n_id_state"
  by (simp add: save_inputs_def sample_helpers_def sample_pdu_def wide_n_id_pdu_def
      sample_tbs_def Let_def re_allocation_of_def sample_rm_loop divide_ceil_def mul32_def
      add32_def sub32_def wrap32_def scrambler_init_def MAX_NSYMB_PER_SLOT_def sample_state_def
      wide_n_id_state_def)

section \<open>Proofs: the rate-match lengths\<close>

lemma length_resize: "length (resize n xs) = n"
  by (simp add: resize_def)

text \<open>What the loop has computed after its first \<open>k\<close> iterations.\<close>

lemma rm_fold:
  assumes "k \<le> n" "length rm0 = n" "length cw0 = n" "length re0 = n"
  shows "\<exists>rm cw re.
           fold (rm_step nre n ns L b) [0..<k] (0, rm0, cw0, re0) =
             (wrap32 (\<Sum>i<k. rm_length_re nre n ns i), rm, cw, re) \<and>
           length rm = n \<and> length cw = n \<and> length re = n \<and>
           (\<forall>i<k. rm ! i = wrap32 (rm_length_re nre n ns i * L * b) \<and>
                   cw ! i = wrap32 (wrap32 (\<Sum>j<i. rm_length_re nre n ns j) * L * b) \<and>
                   re ! i = wrap32 (\<Sum>j<i. rm_length_re nre n ns j))"
  using assms(1)
proof (induction k)
  case 0
  then show ?case using assms(2-4) by (simp add: wrap32_def)
next
  case (Suc k)
  then have "k \<le> n" and kn: "k < n" by simp_all
  with Suc.IH obtain rm cw re where
    f: "fold (rm_step nre n ns L b) [0..<k] (0, rm0, cw0, re0) =
          (wrap32 (\<Sum>i<k. rm_length_re nre n ns i), rm, cw, re)"
    and len: "length rm = n" "length cw = n" "length re = n"
    and el: "\<forall>i<k. rm ! i = wrap32 (rm_length_re nre n ns i * L * b) \<and>
                   cw ! i = wrap32 (wrap32 (\<Sum>j<i. rm_length_re nre n ns j) * L * b) \<and>
                   re ! i = wrap32 (\<Sum>j<i. rm_length_re nre n ns j)"
    by blast
  let ?S = "wrap32 (\<Sum>i<k. rm_length_re nre n ns i)"
  let ?r = "rm_length_re nre n ns k"
  have step: "fold (rm_step nre n ns L b) [0..<Suc k] (0, rm0, cw0, re0) =
      (wrap32 (\<Sum>i<Suc k. rm_length_re nre n ns i),
       rm[k := wrap32 (?r * L * b)], cw[k := wrap32 (?S * L * b)], re[k := ?S])"
    by (simp add: f rm_step_def rm_length_re_def Let_def add32_wrap32 mul32_mul32)
  have "\<forall>i<Suc k.
          (rm[k := wrap32 (?r * L * b)]) ! i = wrap32 (rm_length_re nre n ns i * L * b) \<and>
          (cw[k := wrap32 (?S * L * b)]) ! i =
             wrap32 (wrap32 (\<Sum>j<i. rm_length_re nre n ns j) * L * b) \<and>
          (re[k := ?S]) ! i = wrap32 (\<Sum>j<i. rm_length_re nre n ns j)"
    using el kn len by (auto simp: nth_list_update less_Suc_eq)
  with step len show ?case by simp
qed

text \<open>The lengths in resource elements add up to the number of PDSCH resource elements.\<close>

lemma rm_length_re_sum:
  assumes "0 < n"
  shows "(\<Sum>i<n. rm_length_re m n (n - m mod n) i) = m"
proof -
  let ?r = "m mod n" and ?q = "m div n"
  have rn: "?r < n" using assms by simp
  have split: "{..<n} = {..<n - ?r} \<union> {n - ?r..<n}" by auto
  have "(\<Sum>i<n. rm_length_re m n (n - ?r) i) =
        (\<Sum>i\<in>{..<n - ?r}. rm_length_re m n (n - ?r) i) +
        (\<Sum>i\<in>{n - ?r..<n}. rm_length_re m n (n - ?r) i)"
    unfolding split by (rule sum.union_disjoint) auto
  also have "(\<Sum>i\<in>{..<n - ?r}. rm_length_re m n (n - ?r) i) = (n - ?r) * ?q"
    by (simp add: rm_length_re_def)
  also have "(\<Sum>i\<in>{n - ?r..<n}. rm_length_re m n (n - ?r) i) = ?r * divide_ceil m n"
    using rn by (simp add: rm_length_re_def)
  finally have s: "(\<Sum>i<n. rm_length_re m n (n - ?r) i) = (n - ?r) * ?q + ?r * divide_ceil m n" .
  show ?thesis
  proof (cases "?r = 0")
    case True
    then have "m = n * ?q" by (metis add.right_neutral mult_div_mod_eq)
    with True s show ?thesis by simp
  next
    case False
    with assms have "divide_ceil m n = Suc ?q" by (rule divide_ceil_inexact)
    with s have "(\<Sum>i<n. rm_length_re m n (n - ?r) i) = (n - ?r) * ?q + ?r * ?q + ?r" by simp
    also have "\<dots> = n * ?q + ?r" using rn
      by (simp add: algebra_simps flip: add_mult_distrib)
    also have "\<dots> = m" by simp
    finally show ?thesis .
  qed
qed

lemma rm_length_re_le:
  assumes "0 < n" "i < n"
  shows "rm_length_re m n (n - m mod n) i \<le> m"
proof -
  have "rm_length_re m n (n - m mod n) i \<le> (\<Sum>j\<in>{..<n}. rm_length_re m n (n - m mod n) j)"
    using assms(2) by (intro member_le_sum) simp_all
  with assms(1) show ?thesis by (simp add: rm_length_re_sum)
qed

lemma rm_loop_result:
  assumes n: "0 < n" "n < 2 ^ 32" and m: "m < 2 ^ 32" and mLb: "m * L * b < 2 ^ 32"
  shows "\<exists>rm cw re.
           rm_loop m n (sub32 n (m mod n)) L b old = (m, rm, cw, re) \<and>
           length rm = n \<and> length cw = n \<and> length re = n \<and>
           (\<forall>i<n. rm ! i = rm_length_re m n (n - m mod n) i * L * b) \<and>
           sum_list rm = m * L * b"
proof -
  obtain rm0 cw0 re0 where old: "old = (rm0, cw0, re0)" by (cases old) auto
  have ns: "sub32 n (m mod n) = n - m mod n"
    using n by (intro sub32_le) (simp_all add: less_imp_le)
  from rm_fold [of n n "resize n rm0" "resize n cw0" "resize n re0" m "n - m mod n" L b]
  obtain rm cw re where
    f: "fold (rm_step m n (n - m mod n) L b) [0..<n] (0, resize n rm0, resize n cw0, resize n re0) =
          (wrap32 (\<Sum>i<n. rm_length_re m n (n - m mod n) i), rm, cw, re)"
    and len: "length rm = n" "length cw = n" "length re = n"
    and el: "\<forall>i<n. rm ! i = wrap32 (rm_length_re m n (n - m mod n) i * L * b)"
    by (auto simp: length_resize)
  have el': "rm ! i = rm_length_re m n (n - m mod n) i * L * b" if "i < n" for i
  proof -
    have "rm_length_re m n (n - m mod n) i \<le> m"
      using n(1) that by (rule rm_length_re_le)
    then have "rm_length_re m n (n - m mod n) i * L * b \<le> m * L * b"
      by (intro mult_le_mono) simp_all
    from this mLb have "rm_length_re m n (n - m mod n) i * L * b < 2 ^ 32"
      by (rule le_less_trans)
    with el that show ?thesis by (simp add: wrap32_less)
  qed
  have "sum_list rm = (\<Sum>i<n. rm ! i)"
    by (simp add: sum_list_sum_nth len atLeast0LessThan)
  also have "\<dots> = (\<Sum>i<n. rm_length_re m n (n - m mod n) i * L * b)"
    by (rule sum.cong) (simp_all add: el')
  also have "\<dots> = (\<Sum>i<n. rm_length_re m n (n - m mod n) i) * L * b"
    by (simp add: sum_distrib_right)
  also have "\<dots> = m * L * b" using n(1) by (simp add: rm_length_re_sum)
  finally have total: "sum_list rm = m * L * b" .
  have "rm_loop m n (sub32 n (m mod n)) L b old = (m, rm, cw, re)"
    using f n(1) m by (simp add: rm_loop_def old ns rm_length_re_sum wrap32_less)
  with len el' total show ?thesis by blast
qed

text \<open>
  Claim C3. Let the PDU have a first transport block and a first codeword, a non-zero number
  \<open>n\<close> of codeblocks, a time allocation inside the slot, and a codeword length
  \<open>nre * L * b\<close> (resource elements times layers times bits per symbol) that fits 32 bits.
  Then \<^verbatim>\<open>save_inputs\<close> returns (its assertion on the sum holds), there is one rate-match
  length per codeblock, the lengths sum to the codeword length, the first
  \<open>n - nre mod n\<close> codeblocks have the resource-element length \<open>nre div n\<close> (rounded
  down), and the others have it rounded up.
\<close>

theorem save_inputs_rm_length_sum:
  assumes tbl: "tb_list = tb # rest_tbs" and cws: "codewords pdu = cw0 # rest_cws"
    and nre: "nre = compute_nof_data_re h (re_allocation_of pdu)"
    and n_def: "n = compute_nof_codeblocks h (mul32 (length tb) 8) (ldpc_base_graph pdu)"
    and b_def: "b = get_bits_per_symbol h (modulation cw0)"
    and L_def: "L = precoding_nof_layers pdu"
    and n: "0 < n" "n < 2 ^ 32" and m: "nre < 2 ^ 32" and mLb: "nre * L * b < 2 ^ 32"
    and sym: "start_symbol_index pdu + nof_symbols pdu \<le> MAX_NSYMB_PER_SLOT"
  shows "\<exists>s. save_inputs h old tb_list pdu = Inr s \<and>
             nof_cb s = n \<and> length (rm_length s) = n \<and>
             cw_length (cb_metadata s) = nre * L * b \<and>
             sum_list (rm_length s) = cw_length (cb_metadata s) \<and>
             (\<forall>i<n. rm_length s ! i =
                (if i < n - nre mod n then nre div n else divide_ceil nre n) * L * b)"
proof -
  from rm_loop_result [OF n m mLb, of old] obtain rm cw re where
    loop: "rm_loop nre n (sub32 n (nre mod n)) L b old = (nre, rm, cw, re)"
    and len: "length rm = n"
    and el: "\<forall>i<n. rm ! i = rm_length_re nre n (n - nre mod n) i * L * b"
    and total: "sum_list rm = nre * L * b"
    by blast
  have cwl: "mul32 (mul32 nre L) b = nre * L * b"
    using mLb by (simp add: mul32_mul32 wrap32_less)
  show ?thesis
    using n(1) sym loop len el total cwl
    unfolding save_inputs_def tbl
    by (simp add: Let_def cws flip: nre n_def b_def L_def) (simp add: rm_length_re_def)
qed

theorem save_inputs_rm_length_sum_witness:
  "\<exists>s. save_inputs sample_helpers sample_old sample_tbs sample_pdu = Inr s \<and>
       nof_cb s = 4 \<and> length (rm_length s) = 4 \<and>
       cw_length (cb_metadata s) = 90 * 2 * 2 \<and>
       sum_list (rm_length s) = cw_length (cb_metadata s) \<and>
       (\<forall>i<4. rm_length s ! i =
          (if i < 4 - 90 mod 4 then 90 div 4 else divide_ceil 90 4) * 2 * 2)"
proof -
  have 1: "sample_tbs = [9, 2, 3, 4, 5, 6, 7] # [[8]]"
    by (simp add: sample_tbs_def)
  have 2: "codewords sample_pdu = \<lparr>modulation = QPSK, rv = 0\<rparr> # [\<lparr>modulation = QAM64, rv = 3\<rparr>]"
    by (simp add: sample_pdu_def)
  have 3: "90 = compute_nof_data_re sample_helpers (re_allocation_of sample_pdu)"
    by (simp add: sample_pdu_def sample_helpers_def re_allocation_of_def)
  have 4: "4 = compute_nof_codeblocks sample_helpers (mul32 (length [9, 2, 3, 4, 5, 6, 7 :: 8 word]) 8)
             (ldpc_base_graph sample_pdu)"
    by (simp add: sample_helpers_def divide_ceil_def mul32_def wrap32_def)
  have 5: "2 = get_bits_per_symbol sample_helpers (modulation \<lparr>modulation = QPSK, rv = 0\<rparr>)"
    by (simp add: sample_helpers_def)
  have 6: "2 = precoding_nof_layers sample_pdu"
    by (simp add: sample_pdu_def)
  have 7: "(0::nat) < 4" "(4::nat) < 2 ^ 32" "(90::nat) < 2 ^ 32" "(90::nat) * 2 * 2 < 2 ^ 32"
    by simp_all
  have 8: "start_symbol_index sample_pdu + nof_symbols sample_pdu \<le> MAX_NSYMB_PER_SLOT"
    by (simp add: sample_pdu_def MAX_NSYMB_PER_SLOT_def)
  show ?thesis
    by (rule save_inputs_rm_length_sum [OF 1 2 3 4 5 6 7 8])
qed

section \<open>Proofs: the scrambling initial state\<close>

lemma push_bit_15_plus_eq_or:
  fixes x n :: "32 word"
  assumes "n < 2 ^ 15"
  shows "push_bit 15 x + n = push_bit 15 x OR n"
proof -
  from assms have "n AND mask 15 = n" by (rule less_mask_eq)
  then have n: "take_bit 15 n = n"
    by (simp add: take_bit_eq_mask)
  have "\<not> bit (push_bit 15 x) k \<or> \<not> bit n k" for k
  proof (cases "k < 15")
    case True
    then show ?thesis by (simp add: bit_push_bit_iff)
  next
    case False
    have "bit n k = bit (take_bit 15 n) k" by (simp only: n)
    with False show ?thesis by (simp add: bit_take_bit_iff)
  qed
  then show ?thesis by (rule disjunctive_add)
qed

lemma save_inputs_scrambler:
  assumes "save_inputs h old tb_list pdu = Inr s"
  shows "scrambler_state s = scrambler_init (rnti pdu) 0 (n_id pdu)"
  using assms
  by (auto simp: save_inputs_def Let_def split: list.splits if_splits prod.splits)

text \<open>
  Claim C5, as stated, fails: the code adds the three terms, it does not combine them with
  a bitwise OR. For RNTI 1 and \<open>n_id = 32768\<close> the two terms overlap in bit 15; the code
  initialises the scrambler with 65536, the OR of the claim is 32768.
\<close>

theorem scrambler_c_init_or_counterexample:
  "save_inputs sample_helpers sample_old sample_tbs wide_n_id_pdu = Inr wide_n_id_state \<and>
   scrambler_state wide_n_id_state \<noteq>
     (push_bit 15 (ucast (rnti wide_n_id_pdu)) OR push_bit 14 0 OR n_id wide_n_id_pdu)"
  by (simp add: wide_n_id_save_inputs)
    (simp add: wide_n_id_state_def wide_n_id_pdu_def sample_pdu_def sample_state_def)

text \<open>
  Claim C5, amended. The scrambler is initialised with the 32-bit sum
  \<open>(RNTI << 15) + (i_cw << 14) + n_id\<close>, where the codeword index \<open>i_cw\<close> is 0; when
  \<open>n_id < 2 ^ 15\<close> this sum equals \<open>(RNTI << 15) | (i_cw << 14) | n_id\<close>.
\<close>

theorem scrambler_c_init_sum:
  assumes "save_inputs h old tb_list pdu = Inr s"
  shows "scrambler_state s = push_bit 15 (ucast (rnti pdu)) + push_bit 14 0 + n_id pdu \<and>
         (n_id pdu < 2 ^ 15 \<longrightarrow>
            scrambler_state s = (push_bit 15 (ucast (rnti pdu)) OR push_bit 14 0 OR n_id pdu))"
  using save_inputs_scrambler [OF assms]
  by (simp add: scrambler_init_def push_bit_15_plus_eq_or)

theorem scrambler_c_init_sum_witness:
  "save_inputs sample_helpers sample_old sample_tbs sample_pdu = Inr sample_state \<and>
   n_id sample_pdu < 2 ^ 15 \<and>
   scrambler_state sample_state = push_bit 15 (ucast (rnti sample_pdu)) + push_bit 14 0 + n_id sample_pdu \<and>
   scrambler_state sample_state =
     (push_bit 15 (ucast (rnti sample_pdu)) OR push_bit 14 0 OR n_id sample_pdu)"
proof -
  have n: "n_id sample_pdu < 2 ^ 15" by (simp add: sample_pdu_def)
  from scrambler_c_init_sum [OF sample_save_inputs] n sample_save_inputs
  show ?thesis by blast
qed

section \<open>Proofs: only the first transport block and the first codeword are read\<close>

text \<open>
  Claim C10. \<^verbatim>\<open>save_inputs\<close> computes the same result (or fails the same way) whatever
  follows the first transport block in the list and whatever follows the first entry of the
  codeword list; when it returns, the saved buffer is the first transport block, the
  scrambler is initialised for codeword index 0, and the modulation and redundancy version
  are those of the first codeword. The codeblock workers read the saved state only.
\<close>

theorem save_inputs_first_tb_first_codeword:
  "save_inputs h old (tb # more_tbs) (pdu\<lparr>codewords := cw0 # more_cws\<rparr>) =
     save_inputs h old [tb] (pdu\<lparr>codewords := [cw0]\<rparr>) \<and>
   (\<forall>s. save_inputs h old (tb # more_tbs) (pdu\<lparr>codewords := cw0 # more_cws\<rparr>) = Inr s \<longrightarrow>
      data s = tb \<and>
      scrambler_state s = scrambler_init (rnti pdu) 0 (n_id pdu) \<and>
      md_mod (cb_metadata s) = modulation cw0 \<and>
      md_rv (cb_metadata s) = rv cw0)"
  by (auto simp: save_inputs_def Let_def re_allocation_of_def
      split: list.splits if_splits prod.splits)

theorem save_inputs_first_tb_first_codeword_witness:
  "save_inputs sample_helpers sample_old ([9, 2, 3, 4, 5, 6, 7] # [[8]])
      (sample_pdu\<lparr>codewords := \<lparr>modulation = QPSK, rv = 0\<rparr> # [\<lparr>modulation = QAM64, rv = 3\<rparr>]\<rparr>) =
     Inr sample_state \<and>
   save_inputs sample_helpers sample_old [[9, 2, 3, 4, 5, 6, 7]]
      (sample_pdu\<lparr>codewords := [\<lparr>modulation = QPSK, rv = 0\<rparr>]\<rparr>) = Inr sample_state \<and>
   data sample_state = [9, 2, 3, 4, 5, 6, 7] \<and>
   md_mod (cb_metadata sample_state) = QPSK \<and> md_rv (cb_metadata sample_state) = 0"
proof -
  have e: "save_inputs sample_helpers sample_old ([9, 2, 3, 4, 5, 6, 7] # [[8]])
      (sample_pdu\<lparr>codewords := \<lparr>modulation = QPSK, rv = 0\<rparr> # [\<lparr>modulation = QAM64, rv = 3\<rparr>]\<rparr>) =
     Inr sample_state"
    using sample_save_inputs by (simp add: sample_tbs_def sample_pdu_def)
  from save_inputs_first_tb_first_codeword [where h = sample_helpers and old = sample_old
      and tb = "[9, 2, 3, 4, 5, 6, 7]" and more_tbs = "[[8]]" and pdu = sample_pdu
      and ?cw0.0 = "\<lparr>modulation = QPSK, rv = 0\<rparr>"
      and more_cws = "[\<lparr>modulation = QAM64, rv = 3\<rparr>]"] e
  show ?thesis by auto
qed

section \<open>Proofs: the invariants of the concurrent part\<close>

lemma sub32_one: "1 \<le> a \<Longrightarrow> a < 2 ^ 32 \<Longrightarrow> sub32 a 1 = a - 1"
  by (rule sub32_le) simp_all

lemma add32_one: "a + 1 < 2 ^ 32 \<Longrightarrow> add32 a 1 = a + 1"
  by (simp add: add32_def wrap32_def)

lemma wrap32_lt: "wrap32 x < 2 ^ 32"
  by (simp add: wrap32_def)

lemma sub32_lt: "sub32 a b < 2 ^ 32"
  unfolding sub32_def by (rule wrap32_lt)

lemma add32_lt: "add32 a b < 2 ^ 32"
  unfolding add32_def by (rule wrap32_lt)

lemma sub32_lt_num [simp]: "sub32 a b < 4294967296"
  by (simp add: sub32_def wrap32_def)

lemma add32_lt_num [simp]: "add32 a b < 4294967296"
  by (simp add: add32_def wrap32_def)

lemma wrap32_lt_num [simp]: "wrap32 a < 4294967296"
  by (simp add: wrap32_def)

lemma add32_Suc: "Suc a < 2 ^ 32 \<Longrightarrow> add32 a (Suc 0) = Suc a"
  by (simp add: add32_def wrap32_def)

lemma sub32_Suc: "1 \<le> a \<Longrightarrow> a < 2 ^ 32 \<Longrightarrow> sub32 a (Suc 0) = a - Suc 0"
  using sub32_le [of 1 a] by simp

lemmas inv_defs = pdsch_inv_def inv_types_def inv_async_def inv_unforked_def inv_counts_def
  inv_map_def inv_writes_def cb_debt_def

lemma pdsch_invD:
  assumes "pdsch_inv hp cap st m T s"
  shows "inv_types s" "inv_async m T s" "inv_unforked m T s" "inv_counts cap st m T s"
    "inv_map st m T s" "inv_writes hp m T s"
  using assms by (simp_all add: pdsch_inv_def)

lemma pdsch_invI:
  assumes "inv_types s" "inv_async m T s" "inv_unforked m T s" "inv_counts cap st m T s"
    "inv_map st m T s" "inv_writes hp m T s"
  shows "pdsch_inv hp cap st m T s"
  using assms by (simp add: pdsch_inv_def)

lemma notified_quiet:
  assumes inv: "pdsch_inv hp cap st m T s" and n: "Notify \<in> set (trace s)" and t: "t \<in># T"
  shows "t = Task_done"
proof -
  note as = pdsch_invD(2) [OF inv] and un = pdsch_invD(3) [OF inv] and co = pdsch_invD(4) [OF inv]
  from n as have ne: "\<not> early m" by (auto simp: inv_async_def)
  then have m: "m \<noteq> M_start" by auto
  from n have "count_list (trace s) Notify \<noteq> 0" by (simp add: count_list_0_iff)
  with as m have a0: "async_task_counter s = 0" and dn: "count T Do_notify = 0"
    by (auto simp: inv_async_def split: if_splits)
  from as m a0 have md: "main_debt m = 0" and cd: "cb_debt m s = 0"
    and ad: "(\<Sum>t\<in>#T. async_debt t) = 0"
    by (auto simp: inv_async_def)
  from md ne have f: "forked m" by (cases m) auto
  with cd have "cb_task_counter s = 0" by (simp add: cb_debt_def split: if_splits)
  with co f have il: "(\<Sum>t\<in>#T. in_loop t) = 0" by (simp add: inv_counts_def)
  from ad t have 1: "async_debt t = 0" by (auto simp: sum_mset_0_iff)
  from il t have 2: "in_loop t = 0" by (auto simp: sum_mset_0_iff)
  from dn t have 3: "t \<noteq> Do_notify" by (auto simp: count_eq_zero_iff)
  from 1 2 3 show ?thesis by (cases t) auto
qed

lemma not_notified:
  assumes "pdsch_inv hp cap st m (add_mset t T) s" "t \<noteq> Task_done"
  shows "Notify \<notin> set (trace s)"
  using notified_quiet [OF assms(1), of t] assms(2) by auto

lemma step_ptrs_work:
  assumes inv: "pdsch_inv hp cap st m (add_mset Ptrs_work T) s"
  shows "pdsch_inv hp cap st m (add_mset Async_dec T) (s\<lparr>trace := Write_ptrs # trace s\<rparr>)"
proof (rule pdsch_invI)
  have nn: "Notify \<notin> set (trace s)" using inv by (rule not_notified) simp
  show "inv_types (s\<lparr>trace := Write_ptrs # trace s\<rparr>)"
    using pdsch_invD(1) [OF inv] by (simp add: inv_types_def)
  show "inv_async m (add_mset Async_dec T) (s\<lparr>trace := Write_ptrs # trace s\<rparr>)"
    using pdsch_invD(2) [OF inv] nn by (auto simp: inv_async_def cb_debt_def)
  show "inv_unforked m (add_mset Async_dec T) (s\<lparr>trace := Write_ptrs # trace s\<rparr>)"
    using pdsch_invD(3) [OF inv] by (auto simp: inv_unforked_def)
  show "inv_counts cap st m (add_mset Async_dec T) (s\<lparr>trace := Write_ptrs # trace s\<rparr>)"
    using pdsch_invD(4) [OF inv] by (auto simp: inv_counts_def)
  show "inv_map st m (add_mset Async_dec T) (s\<lparr>trace := Write_ptrs # trace s\<rparr>)"
    using pdsch_invD(5) [OF inv] by (auto simp: inv_map_def)
  show "inv_writes hp m (add_mset Async_dec T) (s\<lparr>trace := Write_ptrs # trace s\<rparr>)"
    using pdsch_invD(6) [OF inv] by (auto simp: inv_writes_def)
qed

lemma step_dmrs_work:
  assumes inv: "pdsch_inv hp cap st m (add_mset Dmrs_work T) s"
  shows "pdsch_inv hp cap st m (add_mset Async_dec T) (s\<lparr>trace := Write_dmrs # trace s\<rparr>)"
proof (rule pdsch_invI)
  have nn: "Notify \<notin> set (trace s)" using inv by (rule not_notified) simp
  show "inv_types (s\<lparr>trace := Write_dmrs # trace s\<rparr>)"
    using pdsch_invD(1) [OF inv] by (simp add: inv_types_def)
  show "inv_async m (add_mset Async_dec T) (s\<lparr>trace := Write_dmrs # trace s\<rparr>)"
    using pdsch_invD(2) [OF inv] nn by (auto simp: inv_async_def cb_debt_def)
  show "inv_unforked m (add_mset Async_dec T) (s\<lparr>trace := Write_dmrs # trace s\<rparr>)"
    using pdsch_invD(3) [OF inv] by (auto simp: inv_unforked_def)
  show "inv_counts cap st m (add_mset Async_dec T) (s\<lparr>trace := Write_dmrs # trace s\<rparr>)"
    using pdsch_invD(4) [OF inv] by (auto simp: inv_counts_def)
  show "inv_map st m (add_mset Async_dec T) (s\<lparr>trace := Write_dmrs # trace s\<rparr>)"
    using pdsch_invD(5) [OF inv] by (auto simp: inv_map_def)
  show "inv_writes hp m (add_mset Async_dec T) (s\<lparr>trace := Write_dmrs # trace s\<rparr>)"
    using pdsch_invD(6) [OF inv] by (auto simp: inv_writes_def)
qed

lemma step_cb_release:
  assumes inv: "pdsch_inv hp cap st m (add_mset Cb_release T) s"
  shows "pdsch_inv hp cap st m (add_mset Async_dec T) (s\<lparr>trace := Release_data # trace s\<rparr>)"
proof (rule pdsch_invI)
  have nn: "Notify \<notin> set (trace s)" using inv by (rule not_notified) simp
  have f: "forked m" using pdsch_invD(3) [OF inv] by (auto simp: inv_unforked_def)
  show "inv_types (s\<lparr>trace := Release_data # trace s\<rparr>)"
    using pdsch_invD(1) [OF inv] by (simp add: inv_types_def)
  show "inv_async m (add_mset Async_dec T) (s\<lparr>trace := Release_data # trace s\<rparr>)"
    using pdsch_invD(2) [OF inv] nn by (auto simp: inv_async_def cb_debt_def)
  show "inv_unforked m (add_mset Async_dec T) (s\<lparr>trace := Release_data # trace s\<rparr>)"
    using f by (auto simp: inv_unforked_def)
  show "inv_counts cap st m (add_mset Async_dec T) (s\<lparr>trace := Release_data # trace s\<rparr>)"
    using pdsch_invD(4) [OF inv] by (auto simp: inv_counts_def)
  show "inv_map st m (add_mset Async_dec T) (s\<lparr>trace := Release_data # trace s\<rparr>)"
    using pdsch_invD(5) [OF inv] by (auto simp: inv_map_def)
  show "inv_writes hp m (add_mset Async_dec T) (s\<lparr>trace := Release_data # trace s\<rparr>)"
    using pdsch_invD(6) [OF inv] by (auto simp: inv_writes_def)
qed

lemma step_cb_process:
  assumes inv: "pdsch_inv hp cap st m (add_mset (Cb_process j) T) s"
  shows "pdsch_inv hp cap st m (add_mset Cb_fetch T)
           (s\<lparr>trace := Map_cb j (nof_info_bits st j) # trace s\<rparr>)"
    (is "pdsch_inv _ _ _ _ ?T ?s")
proof (rule pdsch_invI)
  have nn: "Notify \<notin> set (trace s)" using inv by (rule not_notified) simp
  have f: "forked m" using pdsch_invD(3) [OF inv] by (auto simp: inv_unforked_def)
  note mp = pdsch_invD(5) [OF inv]
  show "inv_types ?s"
    using pdsch_invD(1) [OF inv] by (simp add: inv_types_def)
  show "inv_async m ?T ?s"
    using pdsch_invD(2) [OF inv] nn by (auto simp: inv_async_def cb_debt_def)
  show "inv_unforked m ?T ?s"
    using f by (auto simp: inv_unforked_def)
  show "inv_counts cap st m ?T ?s"
    using pdsch_invD(4) [OF inv] by (auto simp: inv_counts_def)
  show "inv_writes hp m ?T ?s"
    using pdsch_invD(6) [OF inv] by (auto simp: inv_writes_def)
  from mp f have jN: "j < nof_cb st" by (simp add: inv_map_def)
  have a: "count_list (trace ?s) (Map_cb k (nof_info_bits st k)) + count ?T (Cb_process k) =
             (if nof_cb st \<le> k + cb_counter ?s then 1 else 0)" if "k < nof_cb st" for k
  proof -
    from mp f that have
      "count_list (trace s) (Map_cb k (nof_info_bits st k)) + count (add_mset (Cb_process j) T) (Cb_process k) =
         (if nof_cb st \<le> k + cb_counter s then 1 else 0)"
      by (simp add: inv_map_def)
    then show ?thesis by (cases "j = k") simp_all
  qed
  have b: "\<forall>k. Cb_process k \<in># ?T \<longrightarrow> k < nof_cb st"
    using mp f by (simp add: inv_map_def)
  have c: "\<forall>k x. Map_cb k x \<in> set (trace ?s) \<longrightarrow> k < nof_cb st \<and> x = nof_info_bits st k"
    using mp f jN by (auto simp: inv_map_def)
  have d: "fetch_order (trace ?s) =
          rev (map (\<lambda>i. nof_cb st - 1 - i) [0..<min (cb_counter ?s) (nof_cb st)])"
    using mp f by (simp add: inv_map_def)
  from a b c d show "inv_map st m ?T ?s"
    unfolding inv_map_def by blast
qed

lemma step_do_notify:
  assumes inv: "pdsch_inv hp cap st m (add_mset Do_notify T) s"
  shows "pdsch_inv hp cap st m (add_mset Task_done T) (s\<lparr>trace := Notify # trace s\<rparr>)"
    (is "pdsch_inv _ _ _ _ ?T ?s")
proof (rule pdsch_invI)
  have nn: "Notify \<notin> set (trace s)" using inv by (rule not_notified) simp
  show "inv_types ?s"
    using pdsch_invD(1) [OF inv] by (simp add: inv_types_def)
  show "inv_async m ?T ?s"
    using pdsch_invD(2) [OF inv] nn by (auto simp: inv_async_def cb_debt_def split: if_splits)
  show "inv_unforked m ?T ?s"
    using pdsch_invD(3) [OF inv] by (auto simp: inv_unforked_def)
  show "inv_counts cap st m ?T ?s"
    using pdsch_invD(4) [OF inv] by (auto simp: inv_counts_def)
  show "inv_map st m ?T ?s"
    using pdsch_invD(5) [OF inv] by (auto simp: inv_map_def)
  show "inv_writes hp m ?T ?s"
    using pdsch_invD(6) [OF inv] by (auto simp: inv_writes_def)
qed

lemma step_task_done:
  assumes inv: "pdsch_inv hp cap st m (add_mset Task_done T) s"
  shows "pdsch_inv hp cap st m T s"
proof (rule pdsch_invI)
  show "inv_types s"
    using pdsch_invD(1) [OF inv] by (simp add: inv_types_def)
  show "inv_async m T s"
    using pdsch_invD(2) [OF inv] by (auto simp: inv_async_def cb_debt_def split: if_splits)
  show "inv_unforked m T s"
    using pdsch_invD(3) [OF inv] by (auto simp: inv_unforked_def)
  show "inv_counts cap st m T s"
    using pdsch_invD(4) [OF inv] by (auto simp: inv_counts_def)
  show "inv_map st m T s"
    using pdsch_invD(5) [OF inv] by (auto simp: inv_map_def)
  show "inv_writes hp m T s"
    using pdsch_invD(6) [OF inv] by (auto simp: inv_writes_def)
qed

lemma rev_map_upt_Suc: "rev (map f [0..<Suc c]) = f c # rev (map f [0..<c])"
  by simp

lemma step_cb_fetch_ok:
  assumes inv: "pdsch_inv hp cap st m (add_mset Cb_fetch T) s" and ok: "cfg_ok cap st"
    and c: "cb_counter s < nof_cb st"
  shows "pdsch_inv hp cap st m (add_mset (Cb_process (nof_cb st - 1 - cb_counter s)) T)
           (s\<lparr>cb_counter := add32 (cb_counter s) 1,
              trace := Cb_fetched (nof_cb st - 1 - cb_counter s) # trace s\<rparr>)"
    (is "pdsch_inv _ _ _ _ ?T ?s")
proof (rule pdsch_invI)
  have nn: "Notify \<notin> set (trace s)" using inv by (rule not_notified) simp
  have f: "forked m" using pdsch_invD(3) [OF inv] by (auto simp: inv_unforked_def)
  note mp = pdsch_invD(5) [OF inv]
  from ok c have "Suc (cb_counter s) < 2 ^ 32" by (simp add: cfg_ok_def)
  then have c1: "add32 (cb_counter s) (Suc 0) = Suc (cb_counter s)" by (rule add32_Suc)
  show "inv_types ?s"
    using pdsch_invD(1) [OF inv] by (simp add: inv_types_def)
  show "inv_async m ?T ?s"
    using pdsch_invD(2) [OF inv] nn by (auto simp: inv_async_def cb_debt_def)
  show "inv_unforked m ?T ?s"
    using f by (auto simp: inv_unforked_def)
  show "inv_counts cap st m ?T ?s"
    using pdsch_invD(4) [OF inv] c by (auto simp: inv_counts_def c1 max_def)
  show "inv_writes hp m ?T ?s"
    using pdsch_invD(6) [OF inv] by (auto simp: inv_writes_def)
  have a: "count_list (trace ?s) (Map_cb k (nof_info_bits st k)) + count ?T (Cb_process k) =
             (if nof_cb st \<le> k + cb_counter ?s then 1 else 0)" if "k < nof_cb st" for k
  proof -
    from mp f that have
      "count_list (trace s) (Map_cb k (nof_info_bits st k)) + count (add_mset Cb_fetch T) (Cb_process k) =
         (if nof_cb st \<le> k + cb_counter s then 1 else 0)"
      by (simp add: inv_map_def)
    then show ?thesis using c that
      by (cases "k = nof_cb st - 1 - cb_counter s") (auto simp: c1 split: if_splits)
  qed
  have b: "\<forall>k. Cb_process k \<in># ?T \<longrightarrow> k < nof_cb st"
    using mp f c by (auto simp: inv_map_def)
  have c': "\<forall>k x. Map_cb k x \<in> set (trace ?s) \<longrightarrow> k < nof_cb st \<and> x = nof_info_bits st k"
    using mp f by (auto simp: inv_map_def)
  have d: "fetch_order (trace ?s) =
          rev (map (\<lambda>i. nof_cb st - 1 - i) [0..<min (cb_counter ?s) (nof_cb st)])"
  proof -
    from c have 1: "min (Suc (cb_counter s)) (nof_cb st) = Suc (cb_counter s)"
      and 2: "min (cb_counter s) (nof_cb st) = cb_counter s" by simp_all
    from mp f have "fetch_order (trace s) =
        rev (map (\<lambda>i. nof_cb st - 1 - i) [0..<min (cb_counter s) (nof_cb st)])"
      by (simp add: inv_map_def)
    then show ?thesis by (simp add: c1 1 2 del: upt_Suc add: rev_map_upt_Suc)
  qed
  from a b c' d show "inv_map st m ?T ?s"
    unfolding inv_map_def by blast
qed

lemma nof_cb_tasks_le: "nof_cb_tasks cap st \<le> nof_cb st"
  by (simp add: nof_cb_tasks_def)

lemma step_cb_fetch_exit:
  assumes inv: "pdsch_inv hp cap st m (add_mset Cb_fetch T) s" and ok: "cfg_ok cap st"
    and c: "\<not> cb_counter s < nof_cb st"
  shows "pdsch_inv hp cap st m (add_mset Cb_exit T) (s\<lparr>cb_counter := add32 (cb_counter s) 1\<rparr>)"
    (is "pdsch_inv _ _ _ _ ?T ?s")
proof (rule pdsch_invI)
  have f: "forked m" using pdsch_invD(3) [OF inv] by (auto simp: inv_unforked_def)
  note mp = pdsch_invD(5) [OF inv] and co = pdsch_invD(4) [OF inv]
  from co f c have "Suc (cb_counter s) \<le> nof_cb st + nof_cb_tasks cap st"
    by (auto simp: inv_counts_def max_def split: if_splits)
  also have "\<dots> \<le> nof_cb st + nof_cb st" by (simp add: nof_cb_tasks_le)
  also have "\<dots> < 2 ^ 32" using ok by (simp add: cfg_ok_def)
  finally have c1: "add32 (cb_counter s) (Suc 0) = Suc (cb_counter s)" by (rule add32_Suc)
  show "inv_types ?s"
    using pdsch_invD(1) [OF inv] by (simp add: inv_types_def)
  show "inv_async m ?T ?s"
    using pdsch_invD(2) [OF inv] by (auto simp: inv_async_def cb_debt_def)
  show "inv_unforked m ?T ?s"
    using f by (auto simp: inv_unforked_def)
  show "inv_counts cap st m ?T ?s"
    using co c by (auto simp: inv_counts_def c1 max_def)
  show "inv_writes hp m ?T ?s"
    using pdsch_invD(6) [OF inv] by (auto simp: inv_writes_def)
  from c have mn: "min (Suc (cb_counter s)) (nof_cb st) = min (cb_counter s) (nof_cb st)"
    by simp
  show "inv_map st m ?T ?s"
    using mp f c unfolding inv_map_def by (simp add: c1 mn)
qed

lemma step_cb_exit:
  assumes inv: "pdsch_inv hp cap st m (add_mset Cb_exit T) s"
  shows "pdsch_inv hp cap st m
           (add_mset (if cb_task_counter s = 1 then Cb_release else Task_done) T)
           (s\<lparr>cb_task_counter := sub32 (cb_task_counter s) 1\<rparr>)"
    (is "pdsch_inv _ _ _ _ ?T ?s")
proof (rule pdsch_invI)
  have f: "forked m" using pdsch_invD(3) [OF inv] by (auto simp: inv_unforked_def)
  note co = pdsch_invD(4) [OF inv] and ty = pdsch_invD(1) [OF inv]
  from co f have pos: "1 \<le> cb_task_counter s" by (simp add: inv_counts_def)
  with ty have c1: "sub32 (cb_task_counter s) 1 = cb_task_counter s - 1"
    by (intro sub32_one) (simp_all add: inv_types_def)
  show "inv_types ?s"
    using ty by (simp add: inv_types_def)
  show "inv_async m ?T ?s"
    unfolding c1 using pdsch_invD(2) [OF inv] pos f by (auto simp: inv_async_def cb_debt_def)
  show "inv_unforked m ?T ?s"
    using f by (auto simp: inv_unforked_def)
  show "inv_counts cap st m ?T ?s"
    unfolding c1 using co pos f by (auto simp: inv_counts_def)
  show "inv_writes hp m ?T ?s"
    using pdsch_invD(6) [OF inv] by (auto simp: inv_writes_def)
  show "inv_map st m ?T ?s"
    using pdsch_invD(5) [OF inv] unfolding inv_map_def by simp
qed

lemma step_async_dec:
  assumes inv: "pdsch_inv hp cap st m (add_mset Async_dec T) s"
  shows "pdsch_inv hp cap st m
           (add_mset (if async_task_counter s = 1 then Do_notify else Task_done) T)
           (s\<lparr>async_task_counter := sub32 (async_task_counter s) 1\<rparr>)"
    (is "pdsch_inv _ _ _ _ ?T ?s")
proof (rule pdsch_invI)
  note as = pdsch_invD(2) [OF inv] and ty = pdsch_invD(1) [OF inv]
  from as have ne: "\<not> early m" by (auto simp: inv_async_def)
  then have m: "m \<noteq> M_start" by auto
  with as have pos: "1 \<le> async_task_counter s" by (simp add: inv_async_def)
  with ty have c1: "sub32 (async_task_counter s) 1 = async_task_counter s - 1"
    by (intro sub32_one) (simp_all add: inv_types_def)
  show "inv_types ?s"
    using ty by (simp add: inv_types_def)
  show "inv_async m ?T ?s"
    unfolding c1 using as pos ne m by (auto simp: inv_async_def cb_debt_def split: if_splits)
  show "inv_unforked m ?T ?s"
    using pdsch_invD(3) [OF inv] by (auto simp: inv_unforked_def)
  show "inv_counts cap st m ?T ?s"
    using pdsch_invD(4) [OF inv] by (cases "async_task_counter s = 1") (simp_all add: inv_counts_def)
  show "inv_writes hp m ?T ?s"
    using pdsch_invD(6) [OF inv] by (auto simp: inv_writes_def)
  show "inv_map st m ?T ?s"
    using pdsch_invD(5) [OF inv] unfolding inv_map_def by simp
qed

lemma task_step_inv:
  assumes inv: "pdsch_inv hp cap st m (add_mset t T) s" and ok: "cfg_ok cap st"
    and step: "task_step st t s = (t', s')"
  shows "pdsch_inv hp cap st m (add_mset t' T) s'"
proof (cases t)
  case Ptrs_work
  with step step_ptrs_work [of hp cap st m T s] inv show ?thesis by auto
next
  case Dmrs_work
  with step step_dmrs_work [of hp cap st m T s] inv show ?thesis by auto
next
  case Cb_fetch
  show ?thesis
  proof (cases "cb_counter s < nof_cb st")
    case True
    with step Cb_fetch step_cb_fetch_ok [of hp cap st m T s] inv ok show ?thesis
      by (auto simp: Let_def)
  next
    case False
    with step Cb_fetch step_cb_fetch_exit [of hp cap st m T s] inv ok show ?thesis
      by (auto simp: Let_def)
  qed
next
  case (Cb_process j)
  with step step_cb_process [of hp cap st m j T s] inv show ?thesis by auto
next
  case Cb_exit
  with step step_cb_exit [of hp cap st m T s] inv show ?thesis
    by (auto simp: Let_def)
next
  case Cb_release
  with step step_cb_release [of hp cap st m T s] inv show ?thesis by auto
next
  case Async_dec
  with step step_async_dec [of hp cap st m T s] inv show ?thesis
    by (auto simp: Let_def)
next
  case Do_notify
  with step step_do_notify [of hp cap st m T s] inv show ?thesis by auto
next
  case Task_done
  with step inv show ?thesis by auto
qed

lemma step_m_start:
  assumes inv: "pdsch_inv hp cap st M_start T s"
  shows "pdsch_inv hp cap st M_ptrs_check T (s\<lparr>async_task_counter := 2\<rparr>)"
  using assms unfolding inv_defs by auto

lemma step_m_ptrs_check_yes:
  assumes inv: "pdsch_inv hp cap st M_ptrs_check T s"
  shows "pdsch_inv hp cap st M_ptrs_spawn T
           (s\<lparr>async_task_counter := add32 (async_task_counter s) 1\<rparr>)"
proof -
  from inv have "async_task_counter s = 2" by (auto simp: inv_defs)
  then have e: "add32 (async_task_counter s) 1 = 3" by (simp add: add32_def wrap32_def)
  show ?thesis
    unfolding e using inv unfolding inv_defs by auto
qed

lemma step_m_ptrs_check_no:
  assumes inv: "pdsch_inv hp cap st M_ptrs_check T s" and "\<not> hp"
  shows "pdsch_inv hp cap st M_dmrs_spawn T s"
  using assms unfolding inv_defs by auto

lemma step_m_ptrs_spawn:
  assumes inv: "pdsch_inv hp cap st M_ptrs_spawn T s"
  shows "pdsch_inv hp cap st M_dmrs_spawn (add_mset Ptrs_work T) s"
  using assms unfolding inv_defs by auto

lemma step_m_dmrs_spawn:
  assumes inv: "pdsch_inv hp cap st M_dmrs_spawn T s"
  shows "pdsch_inv hp cap st M_fork (add_mset Dmrs_work T) s"
  using assms unfolding inv_defs by auto

lemma step_m_fork:
  assumes inv: "pdsch_inv hp cap st M_fork T s" and ok: "cfg_ok cap st"
  shows "pdsch_inv hp cap st (M_spawn 0) T
           (s\<lparr>cb_task_counter := nof_cb_tasks cap st, cb_counter := 0\<rparr>)"
    (is "pdsch_inv _ _ _ _ _ ?s")
proof (rule pdsch_invI)
  from ok have K: "1 \<le> nof_cb_tasks cap st" "nof_cb_tasks cap st < 4294967296"
    by (auto simp: cfg_ok_def nof_cb_tasks_def min_def)
  note un = pdsch_invD(3) [OF inv]
  show "inv_types ?s"
    using pdsch_invD(1) [OF inv] K by (simp add: inv_types_def)
  show "inv_async (M_spawn 0) T ?s"
    using pdsch_invD(2) [OF inv] K by (auto simp: inv_async_def cb_debt_def)
  show "inv_unforked (M_spawn 0) T ?s"
    by (simp add: inv_unforked_def)
  from un have z: "\<forall>t\<in>#T. in_loop t = 0" by (simp add: inv_unforked_def)
  have "\<forall>t\<in>#T. active t = 0"
  proof
    fix t assume "t \<in># T"
    with z have "in_loop t = 0" by blast
    then show "active t = 0" by (cases t) auto
  qed
  then have act: "(\<Sum>t\<in>#T. active t) = 0" by simp
  show "inv_counts cap st (M_spawn 0) T ?s"
    using un K act by (auto simp: inv_counts_def inv_unforked_def count_list_0_iff count_eq_zero_iff)
  have np: "Cb_process j \<notin># T" for j
  proof
    assume "Cb_process j \<in># T"
    with z have "in_loop (Cb_process j) = 0" by blast
    then show False by simp
  qed
  show "inv_map st (M_spawn 0) T ?s"
    using un ok np by (auto simp: inv_map_def inv_unforked_def cfg_ok_def count_list_0_iff count_eq_zero_iff)
  show "inv_writes hp (M_spawn 0) T ?s"
    using pdsch_invD(6) [OF inv] by (auto simp: inv_writes_def)
qed

lemma step_m_spawn:
  assumes inv: "pdsch_inv hp cap st (M_spawn i) T s" and i: "i \<noteq> nof_cb_tasks cap st"
  shows "pdsch_inv hp cap st (M_spawn (Suc i)) (add_mset Cb_fetch T) s"
proof (rule pdsch_invI)
  from pdsch_invD(4) [OF inv] i have lt: "i < nof_cb_tasks cap st" by (simp add: inv_counts_def)
  show "inv_types s" using pdsch_invD(1) [OF inv] .
  show "inv_async (M_spawn (Suc i)) (add_mset Cb_fetch T) s"
    using pdsch_invD(2) [OF inv] by (auto simp: inv_async_def cb_debt_def)
  show "inv_unforked (M_spawn (Suc i)) (add_mset Cb_fetch T) s"
    by (simp add: inv_unforked_def)
  show "inv_counts cap st (M_spawn (Suc i)) (add_mset Cb_fetch T) s"
    using pdsch_invD(4) [OF inv] lt by (auto simp: inv_counts_def)
  show "inv_map st (M_spawn (Suc i)) (add_mset Cb_fetch T) s"
    using pdsch_invD(5) [OF inv] by (simp add: inv_map_def)
  show "inv_writes hp (M_spawn (Suc i)) (add_mset Cb_fetch T) s"
    using pdsch_invD(6) [OF inv] by (auto simp: inv_writes_def)
qed

lemma step_m_done:
  assumes inv: "pdsch_inv hp cap st (M_spawn (nof_cb_tasks cap st)) T s"
  shows "pdsch_inv hp cap st M_done T s"
  using assms unfolding inv_defs by auto

lemma spawn_inv:
  assumes "pdsch_inv hp cap st m (add_mset t (all_tasks s)) (sh s)" "inline s = None"
  shows "state_inv hp cap st (spawn enq t (s\<lparr>main := m\<rparr>))"
  using assms by (simp add: state_inv_def spawn_def all_tasks_def)

lemma main_step_inv:
  assumes inv: "state_inv hp cap st s" and ok: "cfg_ok cap st"
  shows "state_inv hp cap st (main_step hp cap st accept s)"
proof (cases "inline s")
  case (Some t)
  show ?thesis
  proof (cases "t = Task_done")
    case True
    with inv Some have "pdsch_inv hp cap st (main s) (add_mset Task_done (mset (pool s))) (sh s)"
      by (simp add: state_inv_def all_tasks_def)
    then have "pdsch_inv hp cap st (main s) (mset (pool s)) (sh s)" by (rule step_task_done)
    with Some True show ?thesis by (simp add: main_step_def state_inv_def all_tasks_def)
  next
    case False
    obtain t' s' where ts: "task_step st t (sh s) = (t', s')" by (cases "task_step st t (sh s)")
    from inv Some have "pdsch_inv hp cap st (main s) (add_mset t (mset (pool s))) (sh s)"
      by (simp add: state_inv_def all_tasks_def)
    from task_step_inv [OF this ok ts]
    show ?thesis using Some False ts by (simp add: main_step_def state_inv_def all_tasks_def)
  qed
next
  case None
  from inv have pinv: "pdsch_inv hp cap st (main s) (all_tasks s) (sh s)"
    by (simp add: state_inv_def)
  have at: "all_tasks (s\<lparr>sh := x, main := y\<rparr>) = all_tasks s" for x y
    by (simp add: all_tasks_def)
  have at': "all_tasks (s\<lparr>main := y\<rparr>) = all_tasks s" for y
    by (simp add: all_tasks_def)
  show ?thesis
  proof (cases "main s")
    case M_start
    with pinv have "pdsch_inv hp cap st M_ptrs_check (all_tasks s) ((sh s)\<lparr>async_task_counter := 2\<rparr>)"
      by (auto intro: step_m_start)
    with None M_start show ?thesis by (simp add: main_step_def state_inv_def at)
  next
    case M_ptrs_check
    show ?thesis
    proof (cases hp)
      case True
      from pinv M_ptrs_check have "pdsch_inv hp cap st M_ptrs_spawn (all_tasks s)
           ((sh s)\<lparr>async_task_counter := add32 (async_task_counter (sh s)) 1\<rparr>)"
        using step_m_ptrs_check_yes [of hp cap st "all_tasks s" "sh s"] by simp
      with None M_ptrs_check True show ?thesis by (simp add: main_step_def state_inv_def at)
    next
      case False
      with pinv M_ptrs_check have "pdsch_inv hp cap st M_dmrs_spawn (all_tasks s) (sh s)"
        by (auto intro: step_m_ptrs_check_no)
      with None M_ptrs_check False show ?thesis by (simp add: main_step_def state_inv_def at')
    qed
  next
    case M_ptrs_spawn
    with pinv have "pdsch_inv hp cap st M_dmrs_spawn (add_mset Ptrs_work (all_tasks s)) (sh s)"
      by (auto intro: step_m_ptrs_spawn)
    from spawn_inv [OF this None] None M_ptrs_spawn show ?thesis by (simp add: main_step_def)
  next
    case M_dmrs_spawn
    with pinv have "pdsch_inv hp cap st M_fork (add_mset Dmrs_work (all_tasks s)) (sh s)"
      by (auto intro: step_m_dmrs_spawn)
    from spawn_inv [OF this None] None M_dmrs_spawn show ?thesis by (simp add: main_step_def)
  next
    case M_fork
    with pinv ok have "pdsch_inv hp cap st (M_spawn 0) (all_tasks s)
           ((sh s)\<lparr>cb_task_counter := nof_cb_tasks cap st, cb_counter := 0\<rparr>)"
      by (auto intro: step_m_fork)
    with None M_fork show ?thesis by (simp add: main_step_def state_inv_def at)
  next
    case (M_spawn i)
    show ?thesis
    proof (cases "i = nof_cb_tasks cap st")
      case True
      with pinv M_spawn have "pdsch_inv hp cap st M_done (all_tasks s) (sh s)"
        by (auto intro: step_m_done)
      with None M_spawn True show ?thesis by (simp add: main_step_def state_inv_def at')
    next
      case False
      with pinv M_spawn
      have "pdsch_inv hp cap st (M_spawn (Suc i)) (add_mset Cb_fetch (all_tasks s)) (sh s)"
        by (auto intro: step_m_spawn)
      from spawn_inv [OF this None] None M_spawn False show ?thesis by (simp add: main_step_def)
    qed
  next
    case M_done
    with None inv show ?thesis by (simp add: main_step_def)
  qed
qed

lemma pool_step_inv:
  assumes inv: "state_inv hp cap st s" and ok: "cfg_ok cap st" and i: "i < length (pool s)"
    and ts: "task_step st (pool s ! i) (sh s) = (t', s')"
  shows "state_inv hp cap st (s\<lparr>pool := (pool s)[i := t'], sh := s'\<rparr>)"
proof -
  let ?R = "mset (pool s) - {#pool s ! i#} + (case inline s of None \<Rightarrow> {#} | Some t \<Rightarrow> {#t#})"
  from i have "pool s ! i \<in># mset (pool s)" by simp
  then have "mset (pool s) = add_mset (pool s ! i) (mset (pool s) - {#pool s ! i#})"
    by simp
  then have a: "all_tasks s = add_mset (pool s ! i) ?R"
    unfolding all_tasks_def by (metis union_mset_add_mset_left)
  from i have b: "all_tasks (s\<lparr>pool := (pool s)[i := t'], sh := s'\<rparr>) = add_mset t' ?R"
    by (simp add: all_tasks_def mset_update)
  from inv a have "pdsch_inv hp cap st (main s) (add_mset (pool s ! i) ?R) (sh s)"
    by (simp add: state_inv_def)
  from task_step_inv [OF this ok ts] b show ?thesis
    by (simp add: state_inv_def)
qed

lemma exec_step_inv:
  assumes inv: "state_inv hp cap st s" and ok: "cfg_ok cap st"
  shows "state_inv hp cap st (exec_step hp cap st c s)"
proof (cases c)
  case (Main_step accept)
  with main_step_inv [OF inv ok] show ?thesis by (simp add: exec_step_def)
next
  case (Pool_step i)
  show ?thesis
  proof (cases "i < length (pool s)")
    case True
    obtain t' s' where ts: "task_step st (pool s ! i) (sh s) = (t', s')"
      by (cases "task_step st (pool s ! i) (sh s)")
    from pool_step_inv [OF inv ok True ts] Pool_step True ts show ?thesis
      by (simp add: exec_step_def)
  next
    case False
    with Pool_step inv show ?thesis by (simp add: exec_step_def)
  qed
qed

lemma run_inv:
  assumes "state_inv hp cap st s" "cfg_ok cap st"
  shows "state_inv hp cap st (run hp cap st sched s)"
  using assms unfolding run_def
  by (induction sched arbitrary: s) (simp_all add: exec_step_inv)

lemma init_inv: "state_inv hp cap st (init_state a b c)"
  by (simp add: state_inv_def init_state_def all_tasks_def inv_defs)

section \<open>Proofs: every schedule can be completed\<close>

lemma task_step_decreases:
  assumes inv: "pdsch_inv hp cap st m (add_mset t T) s" and ok: "cfg_ok cap st"
    and ts: "task_step st t s = (t', s')" and nd: "t \<noteq> Task_done"
  shows "task_rem t' + cb_term st m s' < task_rem t + cb_term st m s"
proof (cases t)
  case Cb_fetch
  have f: "forked m" using pdsch_invD(3) [OF inv] Cb_fetch by (auto simp: inv_unforked_def)
  show ?thesis
  proof (cases "cb_counter s < nof_cb st")
    case True
    from ok True have "Suc (cb_counter s) < 2 ^ 32" by (simp add: cfg_ok_def)
    then have c1: "add32 (cb_counter s) (Suc 0) = Suc (cb_counter s)" by (rule add32_Suc)
    from ts Cb_fetch True f show ?thesis
      by (auto simp: Let_def cb_term_def c1)
  next
    case False
    from pdsch_invD(4) [OF inv] f False Cb_fetch
    have "Suc (cb_counter s) \<le> nof_cb st + nof_cb_tasks cap st"
      by (auto simp: inv_counts_def max_def split: if_splits)
    also have "\<dots> \<le> nof_cb st + nof_cb st" by (simp add: nof_cb_tasks_le)
    also have "\<dots> < 2 ^ 32" using ok by (simp add: cfg_ok_def)
    finally have c1: "add32 (cb_counter s) (Suc 0) = Suc (cb_counter s)" by (rule add32_Suc)
    from ts Cb_fetch False f show ?thesis
      by (auto simp: Let_def cb_term_def c1)
  qed
qed (use ts nd in \<open>auto simp: Let_def cb_term_def\<close>)

lemma sum_list_map_update:
  fixes f :: "'a \<Rightarrow> nat"
  assumes "i < length xs"
  shows "sum_list (map f (xs[i := y])) + f (xs ! i) = sum_list (map f xs) + f y"
  using assms
proof (induction xs arbitrary: i)
  case Nil
  then show ?case by simp
next
  case (Cons x xs)
  then show ?case by (cases i) auto
qed

lemma progress:
  assumes inv: "state_inv hp cap st s" and ok: "cfg_ok cap st" and nf: "\<not> finished s"
  shows "\<exists>c. steps_left cap st (exec_step hp cap st c s) < steps_left cap st s"
proof (cases "inline s")
  case (Some t)
  show ?thesis
  proof (cases "t = Task_done")
    case True
    with Some have "steps_left cap st (exec_step hp cap st (Main_step False) s) < steps_left cap st s"
      by (simp add: exec_step_def main_step_def steps_left_def)
    then show ?thesis ..
  next
    case False
    obtain t' s' where ts: "task_step st t (sh s) = (t', s')" by (cases "task_step st t (sh s)")
    from inv Some have "pdsch_inv hp cap st (main s) (add_mset t (mset (pool s))) (sh s)"
      by (simp add: state_inv_def all_tasks_def)
    from task_step_decreases [OF this ok ts False] Some False ts
    have "steps_left cap st (exec_step hp cap st (Main_step False) s) < steps_left cap st s"
      by (simp add: exec_step_def main_step_def steps_left_def)
    then show ?thesis ..
  qed
next
  case None
  show ?thesis
  proof (cases "main s = M_done")
    case False
    from inv have co: "inv_counts cap st (main s) (all_tasks s) (sh s)"
      by (simp add: state_inv_def pdsch_inv_def)
    have "steps_left cap st (exec_step hp cap st (Main_step False) s) < steps_left cap st s"
    proof (cases "main s")
      case (M_spawn i)
      with co have "i \<le> nof_cb_tasks cap st" by (simp add: inv_counts_def)
      with M_spawn None show ?thesis
        by (auto simp: exec_step_def main_step_def steps_left_def spawn_def cb_term_def)
    qed (use None False in \<open>auto simp: exec_step_def main_step_def steps_left_def spawn_def cb_term_def\<close>)
    then show ?thesis ..
  next
    case True
    with nf None obtain i where i: "i < length (pool s)" and t: "pool s ! i \<noteq> Task_done"
      by (auto simp: finished_def in_set_conv_nth)
    obtain t' s' where ts: "task_step st (pool s ! i) (sh s) = (t', s')"
      by (cases "task_step st (pool s ! i) (sh s)")
    let ?R = "mset (pool s) - {#pool s ! i#} + (case inline s of None \<Rightarrow> {#} | Some t \<Rightarrow> {#t#})"
    from i have "pool s ! i \<in># mset (pool s)" by simp
    then have "mset (pool s) = add_mset (pool s ! i) (mset (pool s) - {#pool s ! i#})"
      by simp
    then have a: "all_tasks s = add_mset (pool s ! i) ?R"
      unfolding all_tasks_def by (metis union_mset_add_mset_left)
    from inv a have "pdsch_inv hp cap st (main s) (add_mset (pool s ! i) ?R) (sh s)"
      by (simp add: state_inv_def)
    from task_step_decreases [OF this ok ts t] sum_list_map_update [OF i, of task_rem t'] i ts None
    have "steps_left cap st (exec_step hp cap st (Pool_step i) s) < steps_left cap st s"
      by (simp add: exec_step_def steps_left_def)
    then show ?thesis ..
  qed
qed

lemma can_finish:
  assumes "state_inv hp cap st s" "cfg_ok cap st"
  shows "\<exists>rest. finished (run hp cap st rest s)"
  using assms
proof (induction "steps_left cap st s" arbitrary: s rule: less_induct)
  case less
  show ?case
  proof (cases "finished s")
    case True
    then have "finished (run hp cap st [] s)" by (simp add: run_def)
    then show ?thesis ..
  next
    case False
    from progress [OF less.prems False] obtain c where
      c: "steps_left cap st (exec_step hp cap st c s) < steps_left cap st s" ..
    from less.prems have "state_inv hp cap st (exec_step hp cap st c s)" by (rule exec_step_inv)
    from less.hyps [OF c this less.prems(2)] obtain rest
      where "finished (run hp cap st rest (exec_step hp cap st c s))" ..
    then have "finished (run hp cap st (c # rest) s)" by (simp add: run_def)
    then show ?thesis ..
  qed
qed

lemma run_append: "run hp cap st (xs @ ys) s = run hp cap st ys (run hp cap st xs s)"
  by (simp add: run_def)

section \<open>Proofs: the notification and the codeblocks\<close>

lemma all_done_sums:
  assumes "\<forall>t\<in>#T. t = Task_done"
  shows "(\<Sum>t\<in>#T. in_loop t) = 0" "(\<Sum>t\<in>#T. active t) = 0" "(\<Sum>t\<in>#T. async_debt t) = 0"
    "count T (Cb_process j) = 0" "count T Cb_release = 0" "count T Do_notify = 0"
    "Ptrs_work \<notin># T" "Dmrs_work \<notin># T"
  using assms by (auto simp: count_eq_zero_iff)

lemma settled:
  assumes inv: "pdsch_inv hp cap st m T s" and ok: "cfg_ok cap st"
    and f: "forked m" and z: "cb_task_counter s = 0" and d: "\<forall>t\<in>#T. t = Task_done"
  shows "async_task_counter s = 0"
    and "count_list (trace s) Notify = 1"
    and "count_list (trace s) Release_data = 1"
    and "\<forall>j<nof_cb st. count_list (trace s) (Map_cb j (nof_info_bits st j)) = 1"
    and "fetch_order (trace s) = rev (map (\<lambda>i. nof_cb st - 1 - i) [0..<nof_cb st])"
    and "Write_dmrs \<in> set (trace s)"
    and "hp \<longrightarrow> Write_ptrs \<in> set (trace s)"
proof -
  note sums = all_done_sums [OF d]
  from f have m: "m \<noteq> M_start" "\<not> early m" "main_debt m = 0" by (cases m; simp)+
  from pdsch_invD(2) [OF inv] m z sums(3) show a0: "async_task_counter s = 0"
    by (simp add: inv_async_def cb_debt_def)
  from pdsch_invD(2) [OF inv] m a0 sums(6) show "count_list (trace s) Notify = 1"
    by (simp add: inv_async_def)
  note co = pdsch_invD(4) [OF inv]
  from co f z sums(5) show "count_list (trace s) Release_data = 1"
    by (simp add: inv_counts_def)
  from co f z sums(1) have sp: "spawned (nof_cb_tasks cap st) m = nof_cb_tasks cap st"
    by (simp add: inv_counts_def)
  from ok have "1 \<le> nof_cb_tasks cap st" by (auto simp: cfg_ok_def nof_cb_tasks_def min_def)
  with co f sp sums(2) have c: "nof_cb st < cb_counter s"
    by (auto simp: inv_counts_def max_def split: if_splits)
  note mp = pdsch_invD(5) [OF inv]
  from mp f c sums(4) show "\<forall>j<nof_cb st. count_list (trace s) (Map_cb j (nof_info_bits st j)) = 1"
    by (simp add: inv_map_def)
  from c have "min (cb_counter s) (nof_cb st) = nof_cb st" by simp
  with mp f show "fetch_order (trace s) = rev (map (\<lambda>i. nof_cb st - 1 - i) [0..<nof_cb st])"
    by (simp add: inv_map_def)
  from pdsch_invD(6) [OF inv] f sums(8) show "Write_dmrs \<in> set (trace s)"
    by (simp add: inv_writes_def)
  from pdsch_invD(6) [OF inv] m sums(7) show "hp \<longrightarrow> Write_ptrs \<in> set (trace s)"
    by (simp add: inv_writes_def)
qed

lemma notified_settled:
  assumes inv: "pdsch_inv hp cap st m T s" and n: "Notify \<in> set (trace s)"
  shows "forked m" "cb_task_counter s = 0" "\<forall>t\<in>#T. t = Task_done"
proof -
  from notified_quiet [OF inv n] show d: "\<forall>t\<in>#T. t = Task_done" by blast
  note as = pdsch_invD(2) [OF inv]
  from n as have ne: "\<not> early m" by (auto simp: inv_async_def)
  then have m: "m \<noteq> M_start" by auto
  from n have "count_list (trace s) Notify \<noteq> 0" by (simp add: count_list_0_iff)
  with as m have a0: "async_task_counter s = 0"
    by (auto simp: inv_async_def split: if_splits)
  from as m a0 have md: "main_debt m = 0" and cd: "cb_debt m s = 0"
    by (auto simp: inv_async_def)
  from md ne show f: "forked m" by (cases m) auto
  with cd show "cb_task_counter s = 0" by (simp add: cb_debt_def split: if_splits)
qed

lemma finished_settled:
  assumes inv: "state_inv hp cap st s" and fin: "finished s"
  shows "forked (main s)" "cb_task_counter (sh s) = 0" "\<forall>t\<in>#all_tasks s. t = Task_done"
proof -
  from fin show f: "forked (main s)" by (simp add: finished_def)
  from fin show d: "\<forall>t\<in>#all_tasks s. t = Task_done"
    by (auto simp: finished_def all_tasks_def)
  from inv have "inv_counts cap st (main s) (all_tasks s) (sh s)"
    by (simp add: state_inv_def pdsch_inv_def)
  with fin all_done_sums(1) [OF d] show "cb_task_counter (sh s) = 0"
    by (simp add: inv_counts_def finished_def)
qed

lemma notify_at_most_once:
  assumes inv: "pdsch_inv hp cap st m T s"
  shows "count_list (trace s) Notify \<le> 1"
proof (cases "m = M_start")
  case True
  with pdsch_invD(2) [OF inv] show ?thesis by (simp add: inv_async_def)
next
  case False
  with pdsch_invD(2) [OF inv] show ?thesis by (auto simp: inv_async_def split: if_splits)
qed

lemma notify_is_last:
  assumes inv: "pdsch_inv hp cap st m T s" and ok: "cfg_ok cap st"
    and n: "Notify \<in> set (trace s)"
  shows "\<exists>es. trace s = Notify # es \<and> Notify \<notin> set es \<and> Write_dmrs \<in> set es \<and>
              (hp \<longrightarrow> Write_ptrs \<in> set es) \<and>
              (\<forall>j<nof_cb st. Map_cb j (nof_info_bits st j) \<in> set es)"
proof -
  note ns = notified_settled [OF inv n]
  note se = settled [OF inv ok ns]
  from pdsch_invD(2) [OF inv] n obtain es where es: "trace s = Notify # es"
    by (auto simp: inv_async_def)
  with se(2) have "Notify \<notin> set es" by (simp add: count_list_0_iff)
  moreover from se(6) es have "Write_dmrs \<in> set es" by simp
  moreover from se(7) es have "hp \<longrightarrow> Write_ptrs \<in> set es" by simp
  moreover have "\<forall>j<nof_cb st. Map_cb j (nof_info_bits st j) \<in> set es"
  proof (intro allI impI)
    fix j assume "j < nof_cb st"
    with se(4) have "count_list (trace s) (Map_cb j (nof_info_bits st j)) \<noteq> 0" by simp
    then have "Map_cb j (nof_info_bits st j) \<in> set (trace s)" by (simp add: count_list_0_iff)
    with es show "Map_cb j (nof_info_bits st j) \<in> set es" by simp
  qed
  ultimately show ?thesis using es by blast
qed

text \<open>
  Claim C1. Take any schedule, with any answers of the executor, from the entry of the
  concurrent part of \<^verbatim>\<open>process()\<close>. The run can always be continued until every task
  is done. At every moment the notifier has been called at most once; once it has been
  called, the call is the last event of the trace and the DM-RS, the PT-RS (when configured)
  and the symbols of every codeblock have been written before it. When every task is done
  the notifier has been called exactly once, the transport block has been released exactly
  once (by the last codeblock worker, which then decrements \<^verbatim>\<open>async_task_counter\<close>)
  and the counter is 0. After the first two steps of the caller the counter is 2, or 3 when
  PT-RS is configured.
\<close>

theorem pdsch_notifier_exactly_once:
  assumes ok: "cfg_ok cap st"
  shows "(\<exists>rest. finished (run hp cap st (sched @ rest) (init_state a b c))) \<and>
         count_list (trace (sh (run hp cap st sched (init_state a b c)))) Notify \<le> 1 \<and>
         (Notify \<in> set (trace (sh (run hp cap st sched (init_state a b c)))) \<longrightarrow>
            (\<exists>es. trace (sh (run hp cap st sched (init_state a b c))) = Notify # es \<and>
                  Notify \<notin> set es \<and> Write_dmrs \<in> set es \<and>
                  (hp \<longrightarrow> Write_ptrs \<in> set es) \<and>
                  (\<forall>j<nof_cb st. Map_cb j (nof_info_bits st j) \<in> set es))) \<and>
         (finished (run hp cap st sched (init_state a b c)) \<longrightarrow>
            count_list (trace (sh (run hp cap st sched (init_state a b c)))) Notify = 1 \<and>
            count_list (trace (sh (run hp cap st sched (init_state a b c)))) Release_data = 1 \<and>
            async_task_counter (sh (run hp cap st sched (init_state a b c))) = 0) \<and>
         async_task_counter (sh (run hp cap st [Main_step x, Main_step y] (init_state a b c))) =
           (if hp then 3 else 2)"
proof -
  let ?s = "run hp cap st sched (init_state a b c)"
  have inv: "state_inv hp cap st ?s" using init_inv ok by (rule run_inv)
  then have pinv: "pdsch_inv hp cap st (main ?s) (all_tasks ?s) (sh ?s)"
    by (simp add: state_inv_def)
  from can_finish [OF inv ok]
  have 1: "\<exists>rest. finished (run hp cap st (sched @ rest) (init_state a b c))"
    by (simp add: run_append)
  have 2: "count_list (trace (sh ?s)) Notify \<le> 1" using pinv by (rule notify_at_most_once)
  have 3: "Notify \<in> set (trace (sh ?s)) \<longrightarrow>
            (\<exists>es. trace (sh ?s) = Notify # es \<and>
                  Notify \<notin> set es \<and> Write_dmrs \<in> set es \<and>
                  (hp \<longrightarrow> Write_ptrs \<in> set es) \<and>
                  (\<forall>j<nof_cb st. Map_cb j (nof_info_bits st j) \<in> set es))"
    using notify_is_last [OF pinv ok] by blast
  have 4: "finished ?s \<longrightarrow>
            count_list (trace (sh ?s)) Notify = 1 \<and>
            count_list (trace (sh ?s)) Release_data = 1 \<and> async_task_counter (sh ?s) = 0"
  proof
    assume fin: "finished ?s"
    note se = settled [OF pinv ok finished_settled [OF inv fin]]
    from se(1,2,3) show "count_list (trace (sh ?s)) Notify = 1 \<and>
            count_list (trace (sh ?s)) Release_data = 1 \<and> async_task_counter (sh ?s) = 0"
      by simp
  qed
  have 5: "async_task_counter (sh (run hp cap st [Main_step x, Main_step y] (init_state a b c))) =
           (if hp then 3 else 2)"
    by (simp add: run_def exec_step_def main_step_def init_state_def add32_def wrap32_def)
  from 1 2 3 4 5 show ?thesis by blast
qed

text \<open>
  Claim C4. \<^verbatim>\<open>fork_cb_batches()\<close> sets \<^verbatim>\<open>cb_counter\<close> to 0 and \<^verbatim>\<open>cb_task_counter\<close>
  to \<open>min capacity nof_cb\<close>. A worker that fetches index \<open>i < nof_cb\<close> processes
  codeblock \<open>nof_cb - 1 - i\<close>, and leaves its loop when the index is not below
  \<open>nof_cb\<close>. Every codeblock that is mapped has an index below \<open>nof_cb\<close> and
  \<open>min cb_info_bits (tbs - cb_info_bits * i_cb)\<close> information bits. When every task is
  done, each codeblock has been mapped exactly once, and the codeblocks were fetched in the
  order \<open>nof_cb - 1, \<dots>, 0\<close>: the last one first.
\<close>

theorem cb_workers_each_codeblock_once:
  assumes ok: "cfg_ok cap st"
  shows "(\<forall>s acc. inline s = None \<and> main s = M_fork \<longrightarrow>
            cb_counter (sh (main_step hp cap st acc s)) = 0 \<and>
            cb_task_counter (sh (main_step hp cap st acc s)) = min cap (nof_cb st)) \<and>
         (\<forall>x. fst (task_step st Cb_fetch x) =
            (if cb_counter x < nof_cb st then Cb_process (nof_cb st - 1 - cb_counter x)
             else Cb_exit)) \<and>
         (\<forall>j x. Map_cb j x \<in> set (trace (sh (run hp cap st sched (init_state a b c)))) \<longrightarrow>
            j < nof_cb st \<and>
            x = min (cb_info_bits st) (sub32 (tbs st) (mul32 (cb_info_bits st) j))) \<and>
         (finished (run hp cap st sched (init_state a b c)) \<longrightarrow>
            (\<forall>j<nof_cb st.
               count_list (trace (sh (run hp cap st sched (init_state a b c))))
                 (Map_cb j (nof_info_bits st j)) = 1) \<and>
            rev (fetch_order (trace (sh (run hp cap st sched (init_state a b c))))) =
              map (\<lambda>i. nof_cb st - 1 - i) [0..<nof_cb st])"
proof -
  let ?s = "run hp cap st sched (init_state a b c)"
  have inv: "state_inv hp cap st ?s" using init_inv ok by (rule run_inv)
  then have pinv: "pdsch_inv hp cap st (main ?s) (all_tasks ?s) (sh ?s)"
    by (simp add: state_inv_def)
  have 1: "\<forall>s acc. inline s = None \<and> main s = M_fork \<longrightarrow>
            cb_counter (sh (main_step hp cap st acc s)) = 0 \<and>
            cb_task_counter (sh (main_step hp cap st acc s)) = min cap (nof_cb st)"
    by (simp add: main_step_def nof_cb_tasks_def)
  have 2: "\<forall>x. fst (task_step st Cb_fetch x) =
            (if cb_counter x < nof_cb st then Cb_process (nof_cb st - 1 - cb_counter x)
             else Cb_exit)"
    by (simp add: Let_def)
  have 3: "\<forall>j x. Map_cb j x \<in> set (trace (sh ?s)) \<longrightarrow>
            j < nof_cb st \<and>
            x = min (cb_info_bits st) (sub32 (tbs st) (mul32 (cb_info_bits st) j))"
  proof (cases "forked (main ?s)")
    case True
    with pdsch_invD(5) [OF pinv] show ?thesis by (simp add: inv_map_def nof_info_bits_def)
  next
    case False
    with pdsch_invD(3) [OF pinv] show ?thesis by (simp add: inv_unforked_def)
  qed
  have 4: "finished ?s \<longrightarrow>
            (\<forall>j<nof_cb st. count_list (trace (sh ?s)) (Map_cb j (nof_info_bits st j)) = 1) \<and>
            rev (fetch_order (trace (sh ?s))) = map (\<lambda>i. nof_cb st - 1 - i) [0..<nof_cb st]"
  proof
    assume fin: "finished ?s"
    note se = settled [OF pinv ok finished_settled [OF inv fin]]
    from se(4,5) show "(\<forall>j<nof_cb st. count_list (trace (sh ?s)) (Map_cb j (nof_info_bits st j)) = 1) \<and>
            rev (fetch_order (trace (sh ?s))) = map (\<lambda>i. nof_cb st - 1 - i) [0..<nof_cb st]"
      by simp
  qed
  from 1 2 3 4 show ?thesis by blast
qed

lemma sample_nof_info_bits:
  "nof_info_bits sample_state 0 = 18" "nof_info_bits sample_state (Suc 0) = 18"
  "nof_info_bits sample_state 2 = 18" "nof_info_bits sample_state 3 = 2"
  by (simp_all add: nof_info_bits_def sample_state_def sub32_def mul32_def wrap32_def)

lemma sample_nof_cb: "nof_cb sample_state = 4"
  by (simp add: sample_state_def)

lemma sample_run:
  "run True 2 sample_state sample_schedule (init_state 0 0 7) = sample_final"
  by (simp add: run_def sample_schedule_def init_state_def exec_step_def main_step_def
      spawn_def nof_cb_tasks_def Let_def sample_nof_info_bits add32_def sub32_def wrap32_def
      sample_final_def sample_nof_cb)

lemma sample_cfg_ok: "cfg_ok 2 sample_state"
  by (simp add: cfg_ok_def sample_nof_cb)

lemma sample_finished: "finished (run True 2 sample_state sample_schedule (init_state 0 0 7))"
  by (simp add: sample_run sample_final_def finished_def)

theorem pdsch_notifier_exactly_once_witness:
  "cfg_ok 2 sample_state \<and>
   finished (run True 2 sample_state sample_schedule (init_state 0 0 7)) \<and>
   Notify \<in> set (trace (sh (run True 2 sample_state sample_schedule (init_state 0 0 7)))) \<and>
   (\<exists>es. trace (sh (run True 2 sample_state sample_schedule (init_state 0 0 7))) = Notify # es \<and>
         Notify \<notin> set es \<and> Write_dmrs \<in> set es \<and> Write_ptrs \<in> set es \<and>
         (\<forall>j<nof_cb sample_state. Map_cb j (nof_info_bits sample_state j) \<in> set es)) \<and>
   count_list (trace (sh (run True 2 sample_state sample_schedule (init_state 0 0 7)))) Notify = 1 \<and>
   count_list (trace (sh (run True 2 sample_state sample_schedule (init_state 0 0 7))))
     Release_data = 1"
proof -
  have n: "Notify \<in> set (trace (sh (run True 2 sample_state sample_schedule (init_state 0 0 7))))"
    by (simp add: sample_run sample_final_def)
  from pdsch_notifier_exactly_once [OF sample_cfg_ok, of True sample_schedule 0 0 7]
    sample_cfg_ok sample_finished n
  show ?thesis by blast
qed

theorem cb_workers_each_codeblock_once_witness:
  "cfg_ok 2 sample_state \<and>
   cb_counter (sh (main_step True 2 sample_state False
     \<lparr>sh = \<lparr>async_task_counter = 3, cb_task_counter = 0, cb_counter = 7, trace = []\<rparr>,
      main = M_fork, inline = None, pool = [Ptrs_work, Dmrs_work]\<rparr>)) = 0 \<and>
   fst (task_step sample_state Cb_fetch
     \<lparr>async_task_counter = 3, cb_task_counter = 2, cb_counter = 0, trace = []\<rparr>) = Cb_process 3 \<and>
   fst (task_step sample_state Cb_fetch
     \<lparr>async_task_counter = 3, cb_task_counter = 2, cb_counter = 4, trace = []\<rparr>) = Cb_exit \<and>
   finished (run True 2 sample_state sample_schedule (init_state 0 0 7)) \<and>
   Map_cb 3 2 \<in> set (trace (sh (run True 2 sample_state sample_schedule (init_state 0 0 7)))) \<and>
   2 = min (cb_info_bits sample_state) (sub32 (tbs sample_state) (mul32 (cb_info_bits sample_state) 3)) \<and>
   count_list (trace (sh (run True 2 sample_state sample_schedule (init_state 0 0 7))))
     (Map_cb 0 (nof_info_bits sample_state 0)) = 1 \<and>
   count_list (trace (sh (run True 2 sample_state sample_schedule (init_state 0 0 7))))
     (Map_cb 1 (nof_info_bits sample_state 1)) = 1 \<and>
   count_list (trace (sh (run True 2 sample_state sample_schedule (init_state 0 0 7))))
     (Map_cb 2 (nof_info_bits sample_state 2)) = 1 \<and>
   count_list (trace (sh (run True 2 sample_state sample_schedule (init_state 0 0 7))))
     (Map_cb 3 (nof_info_bits sample_state 3)) = 1 \<and>
   rev (fetch_order (trace (sh (run True 2 sample_state sample_schedule (init_state 0 0 7))))) =
     [3, 2, 1, 0]"
proof -
  note t = cb_workers_each_codeblock_once [OF sample_cfg_ok, of True sample_schedule 0 0 7]
  have m: "Map_cb 3 2 \<in> set (trace (sh (run True 2 sample_state sample_schedule (init_state 0 0 7))))"
    by (simp add: sample_run sample_final_def)
  have u: "map (\<lambda>i. nof_cb sample_state - 1 - i) [0..<nof_cb sample_state] = [3, 2, 1, 0]"
    by (simp add: sample_nof_cb upt_0_4)
  from t have 1: "cb_counter (sh (main_step True 2 sample_state False
     \<lparr>sh = \<lparr>async_task_counter = 3, cb_task_counter = 0, cb_counter = 7, trace = []\<rparr>,
      main = M_fork, inline = None, pool = [Ptrs_work, Dmrs_work]\<rparr>)) = 0"
    by simp
  from t have 2: "fst (task_step sample_state Cb_fetch
     \<lparr>async_task_counter = 3, cb_task_counter = 2, cb_counter = 0, trace = []\<rparr>) = Cb_process 3"
    "fst (task_step sample_state Cb_fetch
     \<lparr>async_task_counter = 3, cb_task_counter = 2, cb_counter = 4, trace = []\<rparr>) = Cb_exit"
    by (simp_all add: sample_nof_cb)
  from t m have 3: "2 = min (cb_info_bits sample_state)
      (sub32 (tbs sample_state) (mul32 (cb_info_bits sample_state) 3))"
    by blast
  from t sample_finished u have 4: "\<forall>j<nof_cb sample_state.
      count_list (trace (sh (run True 2 sample_state sample_schedule (init_state 0 0 7))))
        (Map_cb j (nof_info_bits sample_state j)) = 1"
    and 5: "rev (fetch_order (trace (sh (run True 2 sample_state sample_schedule (init_state 0 0 7))))) =
     [3, 2, 1, 0]"
    by simp_all
  have "(0::nat) < 4" "(1::nat) < 4" "(2::nat) < 4" "(3::nat) < 4" by simp_all
  with 4 have 6:
    "count_list (trace (sh (run True 2 sample_state sample_schedule (init_state 0 0 7))))
       (Map_cb 0 (nof_info_bits sample_state 0)) = 1"
    "count_list (trace (sh (run True 2 sample_state sample_schedule (init_state 0 0 7))))
       (Map_cb 1 (nof_info_bits sample_state 1)) = 1"
    "count_list (trace (sh (run True 2 sample_state sample_schedule (init_state 0 0 7))))
       (Map_cb 2 (nof_info_bits sample_state 2)) = 1"
    "count_list (trace (sh (run True 2 sample_state sample_schedule (init_state 0 0 7))))
       (Map_cb 3 (nof_info_bits sample_state 3)) = 1"
    unfolding sample_nof_cb by blast+
  from sample_cfg_ok 1 2 sample_finished m 3 5 6 show ?thesis by blast
qed

section \<open>Proofs: the UE manager\<close>

lemma map_of_emplace:
  "map_of (emplace k v xs) k' =
     (if k' = k \<and> map_of xs k = None then Some v else map_of xs k')"
  by (auto simp: emplace_def map_add_def split: option.splits)

lemma map_of_erase: "map_of (erase k xs) k' = (if k' = k then None else map_of xs k')"
  by (induction xs) (auto simp: erase_def)

lemma map_of_update_at:
  "map_of (update_at k f xs) k' = (if k' = k then map_option f (map_of xs k) else map_of xs k')"
  by (induction xs) (auto simp: update_at_def)

lemma allocate_ue_index_fresh:
  "allocate_ue_index C du mgr \<noteq> invalid_ue_index C \<Longrightarrow>
   map_of (ues mgr) (allocate_ue_index C du mgr) = None"
  by (auto simp: allocate_ue_index_def split: option.splits dest: find_Some_iff [THEN iffD1])

lemma ue_inv_empty: "ue_inv C ue_manager_empty"
  by (simp add: ue_inv_def ue_manager_empty_def)

lemma ue_inv_add_ue: "ue_inv C mgr \<Longrightarrow> ue_inv C (snd (add_ue C du mgr))"
  by (auto simp: ue_inv_def add_ue_def Let_def map_of_emplace new_cu_cp_ue_def split: if_splits)

lemma ue_inv_remove_ue:
  assumes "ue_inv C mgr"
  shows "ue_inv C (remove_ue C i mgr)"
proof (cases "i = invalid_ue_index C \<or> map_of (ues mgr) i = None")
  case True
  with assms show ?thesis by (auto simp: remove_ue_def)
next
  case False
  then obtain ue where ue: "map_of (ues mgr) i = Some ue" and i: "i \<noteq> invalid_ue_index C"
    by auto
  show ?thesis
  proof (cases "ue_pci ue \<noteq> INVALID_PCI C \<and> ue_c_rnti ue \<noteq> INVALID_RNTI C")
    case True
    with assms ue have k: "map_of (pci_rnti_to_ue_index mgr) (ue_pci ue, ue_c_rnti ue) = Some i"
      by (simp add: ue_inv_def)
    have "ue_inv C (mgr\<lparr>pci_rnti_to_ue_index :=
                         erase (ue_pci ue, ue_c_rnti ue) (pci_rnti_to_ue_index mgr),
                       ues := erase i (ues mgr)\<rparr>)"
      unfolding ue_inv_def
    proof (intro conjI allI impI)
      fix j u
      assume a: "map_of (ues (mgr\<lparr>pci_rnti_to_ue_index :=
                         erase (ue_pci ue, ue_c_rnti ue) (pci_rnti_to_ue_index mgr),
                       ues := erase i (ues mgr)\<rparr>)) j = Some u \<and>
                 ue_pci u \<noteq> INVALID_PCI C \<and> ue_c_rnti u \<noteq> INVALID_RNTI C"
      then have ji: "j \<noteq> i" and ju: "map_of (ues mgr) j = Some u"
        by (auto simp: map_of_erase split: if_splits)
      with assms a have kj: "map_of (pci_rnti_to_ue_index mgr) (ue_pci u, ue_c_rnti u) = Some j"
        by (simp add: ue_inv_def)
      with k ji have "(ue_pci u, ue_c_rnti u) \<noteq> (ue_pci ue, ue_c_rnti ue)" by auto
      with kj show "map_of (pci_rnti_to_ue_index (mgr\<lparr>pci_rnti_to_ue_index :=
                         erase (ue_pci ue, ue_c_rnti ue) (pci_rnti_to_ue_index mgr),
                       ues := erase i (ues mgr)\<rparr>)) (ue_pci u, ue_c_rnti u) = Some j"
        by (simp add: map_of_erase)
    next
      fix k' j
      assume "map_of (pci_rnti_to_ue_index (mgr\<lparr>pci_rnti_to_ue_index :=
                         erase (ue_pci ue, ue_c_rnti ue) (pci_rnti_to_ue_index mgr),
                       ues := erase i (ues mgr)\<rparr>)) k' = Some j"
      then have "map_of (pci_rnti_to_ue_index mgr) k' = Some j"
        by (simp add: map_of_erase split: if_splits)
      with assms show "j \<noteq> invalid_ue_index C"
        unfolding ue_inv_def by blast
    qed
    with ue i True show ?thesis by (simp add: remove_ue_def Let_def)
  next
    case False
    have "ue_inv C (mgr\<lparr>ues := erase i (ues mgr)\<rparr>)"
      using assms by (auto simp: ue_inv_def map_of_erase split: if_splits)
    with ue i False show ?thesis by (auto simp: remove_ue_def Let_def)
  qed
qed

lemma get_ue_index_invalid:
  assumes "ue_inv C mgr"
  shows "get_ue_index C pci c_rnti mgr = invalid_ue_index C \<longleftrightarrow>
         map_of (pci_rnti_to_ue_index mgr) (pci, c_rnti) = None"
proof (cases "map_of (pci_rnti_to_ue_index mgr) (pci, c_rnti)")
  case None
  then show ?thesis by (simp add: get_ue_index_def)
next
  case (Some i)
  with assms have "i \<noteq> invalid_ue_index C" unfolding ue_inv_def by blast
  with Some show ?thesis by (simp add: get_ue_index_def)
qed

lemma set_ue_du_context_cases:
  assumes inv: "ue_inv C mgr"
    and r: "set_ue_du_context C i du_id pci c_rnti mgr = Inr (res, mgr')"
  shows "i \<noteq> invalid_ue_index C \<and> pci \<noteq> INVALID_PCI C \<and> c_rnti \<noteq> INVALID_RNTI C \<and>
         (res = None \<and> mgr' = mgr \<or>
          (\<exists>ue. map_of (ues mgr) i = Some ue \<and>
                map_of (pci_rnti_to_ue_index mgr) (pci, c_rnti) = None \<and>
                res = Some (update_du_ue du_id pci c_rnti ue) \<and>
                mgr' = mgr\<lparr>ues := update_at i (update_du_ue du_id pci c_rnti) (ues mgr),
                           pci_rnti_to_ue_index :=
                             emplace (pci, c_rnti) i (pci_rnti_to_ue_index mgr)\<rparr>))"
  using r get_ue_index_invalid [OF inv, of pci c_rnti]
  by (auto simp: set_ue_du_context_def Let_def split: if_splits option.splits)

lemma set_ue_du_context_result:
  assumes inv: "ue_inv C mgr"
    and r: "set_ue_du_context C i du_id pci c_rnti mgr = Inr (res, mgr')"
  shows "ue_inv C mgr'"
    and "res = None \<longrightarrow> mgr' = mgr"
    and "\<forall>ue. res = Some ue \<longrightarrow>
           get_ue_index C pci c_rnti mgr' = i \<and> find_ue i mgr' = Some ue \<and>
           ue_pci ue = pci \<and> ue_c_rnti ue = c_rnti"
proof -
  note c = set_ue_du_context_cases [OF inv r]
  then have v: "i \<noteq> invalid_ue_index C" "pci \<noteq> INVALID_PCI C" "c_rnti \<noteq> INVALID_RNTI C"
    by simp_all
  from c show n: "res = None \<longrightarrow> mgr' = mgr" by auto
  from c show "\<forall>ue. res = Some ue \<longrightarrow>
           get_ue_index C pci c_rnti mgr' = i \<and> find_ue i mgr' = Some ue \<and>
           ue_pci ue = pci \<and> ue_c_rnti ue = c_rnti"
    by (auto simp: get_ue_index_def find_ue_def map_of_emplace map_of_update_at update_du_ue_def)
  show "ue_inv C mgr'"
  proof (cases res)
    case None
    with n inv show ?thesis by simp
  next
    case (Some ue')
    with c obtain ue where ue: "map_of (ues mgr) i = Some ue"
      and free: "map_of (pci_rnti_to_ue_index mgr) (pci, c_rnti) = None"
      and m': "mgr' = mgr\<lparr>ues := update_at i (update_du_ue du_id pci c_rnti) (ues mgr),
                          pci_rnti_to_ue_index := emplace (pci, c_rnti) i (pci_rnti_to_ue_index mgr)\<rparr>"
      by auto
    show ?thesis
      unfolding ue_inv_def m'
    proof (intro conjI allI impI)
      fix j u
      assume a: "map_of (ues (mgr\<lparr>ues := update_at i (update_du_ue du_id pci c_rnti) (ues mgr),
                          pci_rnti_to_ue_index := emplace (pci, c_rnti) i (pci_rnti_to_ue_index mgr)\<rparr>)) j = Some u \<and>
                 ue_pci u \<noteq> INVALID_PCI C \<and> ue_c_rnti u \<noteq> INVALID_RNTI C"
      show "map_of (pci_rnti_to_ue_index (mgr\<lparr>ues := update_at i (update_du_ue du_id pci c_rnti) (ues mgr),
                          pci_rnti_to_ue_index := emplace (pci, c_rnti) i (pci_rnti_to_ue_index mgr)\<rparr>))
              (ue_pci u, ue_c_rnti u) = Some j"
      proof (cases "j = i")
        case True
        with a ue have "u = update_du_ue du_id pci c_rnti ue" by (simp add: map_of_update_at)
        with True free show ?thesis by (simp add: map_of_emplace update_du_ue_def)
      next
        case False
        with a have "map_of (ues mgr) j = Some u" by (simp add: map_of_update_at)
        with inv a have "map_of (pci_rnti_to_ue_index mgr) (ue_pci u, ue_c_rnti u) = Some j"
          by (simp add: ue_inv_def)
        with free show ?thesis by (auto simp: map_of_emplace)
      qed
    next
      fix k j
      assume "map_of (pci_rnti_to_ue_index (mgr\<lparr>ues := update_at i (update_du_ue du_id pci c_rnti) (ues mgr),
                          pci_rnti_to_ue_index := emplace (pci, c_rnti) i (pci_rnti_to_ue_index mgr)\<rparr>)) k = Some j"
      then have "j = i \<or> map_of (pci_rnti_to_ue_index mgr) k = Some j"
        by (auto simp: map_of_emplace split: if_splits)
      with inv v show "j \<noteq> invalid_ue_index C"
        unfolding ue_inv_def by blast
    qed
  qed
qed

lemma ue_inv_apply_op:
  assumes "ue_inv C mgr" "apply_ue_op C x mgr = Inr mgr'"
  shows "ue_inv C mgr'"
proof (cases x)
  case (Add_ue du)
  with assms ue_inv_add_ue [of C mgr du] show ?thesis by auto
next
  case (Remove_ue i)
  with assms ue_inv_remove_ue [of C mgr i] show ?thesis by auto
next
  case (Set_ue_du_context i du_id pci c_rnti)
  with assms obtain res where "set_ue_du_context C i du_id pci c_rnti mgr = Inr (res, mgr')"
    by (auto split: sum.splits prod.splits)
  with assms(1) show ?thesis by (rule set_ue_du_context_result(1))
qed

lemma ue_inv_apply_ops:
  assumes "ue_inv C mgr" "apply_ue_ops C xs mgr = Inr mgr'"
  shows "ue_inv C mgr'"
  using assms
proof (induction xs arbitrary: mgr)
  case Nil
  then show ?case by simp
next
  case (Cons x xs)
  then show ?case by (auto split: sum.splits dest: ue_inv_apply_op)
qed

lemma sample_ue_run:
  "apply_ue_ops sample_ue_consts sample_ue_ops ue_manager_empty = Inr sample_ue_manager"
  by (simp add: sample_ue_ops_def sample_ue_consts_def ue_manager_empty_def add_ue_def
      allocate_ue_index_def upt_0_4 emplace_def erase_def update_at_def new_cu_cp_ue_def
      update_du_ue_def set_ue_du_context_def get_ue_index_def remove_ue_def Let_def
      sample_ue_manager_def)

text \<open>
  From the record to the index. In every state that the UE manager reaches from the empty
  one by calls of \<^verbatim>\<open>add_ue\<close>, \<^verbatim>\<open>remove_ue\<close> and \<^verbatim>\<open>set_ue_du_context\<close>: a UE of the UE
  map whose record holds a valid PCI and C-RNTI is the one that \<^verbatim>\<open>get_ue_index\<close> returns
  for them, so that no two UEs of the map hold the same valid pair;
  \<^verbatim>\<open>set_ue_du_context\<close> refuses, without any change, a pair that \<^verbatim>\<open>get_ue_index\<close>
  already maps to a UE; and when it accepts, the pair maps to the UE index and the record
  at that index holds the pair.
\<close>

theorem ue_pci_rnti_round_trip:
  assumes run: "apply_ue_ops C ops ue_manager_empty = Inr mgr"
    and max: "max_nof_supported_ues C \<le> 65536"
  shows "(\<forall>i ue. find_ue i mgr = Some ue \<and> ue_pci ue \<noteq> INVALID_PCI C \<and>
                 ue_c_rnti ue \<noteq> INVALID_RNTI C \<longrightarrow>
            get_ue_index C (ue_pci ue) (ue_c_rnti ue) mgr = i \<and> i \<noteq> invalid_ue_index C) \<and>
         (\<forall>i j ue ue'. find_ue i mgr = Some ue \<and> find_ue j mgr = Some ue' \<and>
                 ue_pci ue \<noteq> INVALID_PCI C \<and> ue_c_rnti ue \<noteq> INVALID_RNTI C \<and>
                 ue_pci ue' = ue_pci ue \<and> ue_c_rnti ue' = ue_c_rnti ue \<longrightarrow> i = j) \<and>
         (\<forall>i du_id pci c_rnti res mgr'.
            set_ue_du_context C i du_id pci c_rnti mgr = Inr (res, mgr') \<and>
            get_ue_index C pci c_rnti mgr \<noteq> invalid_ue_index C \<longrightarrow> res = None \<and> mgr' = mgr) \<and>
         (\<forall>i du_id pci c_rnti ue mgr'.
            set_ue_du_context C i du_id pci c_rnti mgr = Inr (Some ue, mgr') \<longrightarrow>
              get_ue_index C pci c_rnti mgr' = i \<and> find_ue i mgr' = Some ue \<and>
              ue_pci ue = pci \<and> ue_c_rnti ue = c_rnti)"
proof -
  have inv: "ue_inv C mgr" using ue_inv_empty run by (rule ue_inv_apply_ops)
  have rt: "get_ue_index C (ue_pci ue) (ue_c_rnti ue) mgr = i \<and> i \<noteq> invalid_ue_index C"
    if "find_ue i mgr = Some ue" "ue_pci ue \<noteq> INVALID_PCI C" "ue_c_rnti ue \<noteq> INVALID_RNTI C"
    for i ue
  proof -
    from inv that have m: "map_of (pci_rnti_to_ue_index mgr) (ue_pci ue, ue_c_rnti ue) = Some i"
      by (simp add: ue_inv_def find_ue_def)
    with inv have "i \<noteq> invalid_ue_index C" unfolding ue_inv_def by blast
    with m show ?thesis by (simp add: get_ue_index_def)
  qed
  have 1: "\<forall>i ue. find_ue i mgr = Some ue \<and> ue_pci ue \<noteq> INVALID_PCI C \<and>
                 ue_c_rnti ue \<noteq> INVALID_RNTI C \<longrightarrow>
            get_ue_index C (ue_pci ue) (ue_c_rnti ue) mgr = i \<and> i \<noteq> invalid_ue_index C"
    using rt by blast
  have 2: "\<forall>i j ue ue'. find_ue i mgr = Some ue \<and> find_ue j mgr = Some ue' \<and>
                 ue_pci ue \<noteq> INVALID_PCI C \<and> ue_c_rnti ue \<noteq> INVALID_RNTI C \<and>
                 ue_pci ue' = ue_pci ue \<and> ue_c_rnti ue' = ue_c_rnti ue \<longrightarrow> i = j"
  proof (intro allI impI)
    fix i j ue ue'
    assume a: "find_ue i mgr = Some ue \<and> find_ue j mgr = Some ue' \<and>
                 ue_pci ue \<noteq> INVALID_PCI C \<and> ue_c_rnti ue \<noteq> INVALID_RNTI C \<and>
                 ue_pci ue' = ue_pci ue \<and> ue_c_rnti ue' = ue_c_rnti ue"
    then have "get_ue_index C (ue_pci ue) (ue_c_rnti ue) mgr = i" using rt by blast
    moreover from a have "get_ue_index C (ue_pci ue') (ue_c_rnti ue') mgr = j"
      using rt [of j ue'] by simp
    ultimately show "i = j" using a by simp
  qed
  have 3: "\<forall>i du_id pci c_rnti res mgr'.
            set_ue_du_context C i du_id pci c_rnti mgr = Inr (res, mgr') \<and>
            get_ue_index C pci c_rnti mgr \<noteq> invalid_ue_index C \<longrightarrow> res = None \<and> mgr' = mgr"
    by (auto simp: set_ue_du_context_def Let_def split: if_splits option.splits)
  have 4: "\<forall>i du_id pci c_rnti ue mgr'.
            set_ue_du_context C i du_id pci c_rnti mgr = Inr (Some ue, mgr') \<longrightarrow>
              get_ue_index C pci c_rnti mgr' = i \<and> find_ue i mgr' = Some ue \<and>
              ue_pci ue = pci \<and> ue_c_rnti ue = c_rnti"
    using set_ue_du_context_result(3) [OF inv] by blast
  from 1 2 3 4 show ?thesis by blast
qed

theorem ue_pci_rnti_round_trip_witness:
  "apply_ue_ops sample_ue_consts sample_ue_ops ue_manager_empty = Inr sample_ue_manager \<and>
   max_nof_supported_ues sample_ue_consts \<le> 65536 \<and>
   find_ue 1 sample_ue_manager =
     Some \<lparr>ue_index = 1, ue_du_index = 0, ue_du_id = 85, ue_pci = 2, ue_c_rnti = 17922\<rparr> \<and>
   get_ue_index sample_ue_consts 2 17922 sample_ue_manager = 1 \<and>
   set_ue_du_context sample_ue_consts 1 85 2 17921 sample_ue_manager =
     Inr (None, sample_ue_manager) \<and>
   get_ue_index sample_ue_consts 2 17921 sample_ue_manager = 0 \<and>
   get_ue_index sample_ue_consts 3 17930
     (snd (projr (set_ue_du_context sample_ue_consts 1 85 3 17930 sample_ue_manager))) = 1"
proof -
  have m: "max_nof_supported_ues sample_ue_consts \<le> 65536"
    by (simp add: sample_ue_consts_def)
  note t = ue_pci_rnti_round_trip [OF sample_ue_run m]
  note t1 = t [THEN conjunct1, rule_format]
  note t3 = t [THEN conjunct2, THEN conjunct2, THEN conjunct1, rule_format]
  note t4 = t [THEN conjunct2, THEN conjunct2, THEN conjunct2, rule_format]
  let ?ue = "\<lparr>ue_index = 1, ue_du_index = 0, ue_du_id = 85, ue_pci = 2, ue_c_rnti = 17922\<rparr>"
  have f: "find_ue 1 sample_ue_manager = Some ?ue"
    by (simp add: find_ue_def sample_ue_manager_def)
  have v: "ue_pci ?ue \<noteq> INVALID_PCI sample_ue_consts" "ue_c_rnti ?ue \<noteq> INVALID_RNTI sample_ue_consts"
    by (simp_all add: sample_ue_consts_def)
  from t1 [of 1 ?ue] f v have 1: "get_ue_index sample_ue_consts 2 17922 sample_ue_manager = 1"
    by simp
  have g: "get_ue_index sample_ue_consts 2 17921 sample_ue_manager = 0"
    by (simp add: get_ue_index_def sample_ue_manager_def)
  obtain res mgr' where
    r: "set_ue_du_context sample_ue_consts 1 85 2 17921 sample_ue_manager = Inr (res, mgr')"
    by (simp add: set_ue_du_context_def sample_ue_consts_def sample_ue_manager_def
        get_ue_index_def)
  have "get_ue_index sample_ue_consts 2 17921 sample_ue_manager \<noteq> invalid_ue_index sample_ue_consts"
    by (simp add: g) (simp add: sample_ue_consts_def)
  with t3 [of 1 85 2 17921 res mgr'] r have "res = None \<and> mgr' = sample_ue_manager" by simp
  with r have 2: "set_ue_du_context sample_ue_consts 1 85 2 17921 sample_ue_manager =
     Inr (None, sample_ue_manager)" by simp
  obtain ue'' mgr'' where
    r': "set_ue_du_context sample_ue_consts 1 85 3 17930 sample_ue_manager = Inr (Some ue'', mgr'')"
    by (simp add: set_ue_du_context_def sample_ue_consts_def sample_ue_manager_def
        get_ue_index_def Let_def)
  with t4 [of 1 85 3 17930 ue'' mgr''] have "get_ue_index sample_ue_consts 3 17930 mgr'' = 1" by simp
  with r' have 3: "get_ue_index sample_ue_consts 3 17930
     (snd (projr (set_ue_du_context sample_ue_consts 1 85 3 17930 sample_ue_manager))) = 1"
    by simp
  from sample_ue_run m f 1 2 g 3 show ?thesis by simp
qed

section \<open>Proofs: a DU context that is set twice\<close>

lemma lookup_inv_empty: "lookup_inv C ue_manager_empty"
  by (simp add: lookup_inv_def ue_manager_empty_def)

lemma lookup_inv_add_ue:
  assumes "lookup_inv C mgr"
  shows "lookup_inv C (snd (add_ue C du mgr))"
proof (cases "length (ues mgr) = max_nof_supported_ues C \<or>
              allocate_ue_index C du mgr = invalid_ue_index C")
  case True
  with assms show ?thesis by (auto simp: add_ue_def Let_def)
next
  case False
  then have fresh: "map_of (ues mgr) (allocate_ue_index C du mgr) = None"
    using allocate_ue_index_fresh by blast
  from False have s: "snd (add_ue C du mgr) =
      mgr\<lparr>ues := emplace (allocate_ue_index C du mgr)
                     (new_cu_cp_ue C (allocate_ue_index C du mgr) du) (ues mgr)\<rparr>"
    by (simp add: add_ue_def Let_def)
  show ?thesis
    unfolding s lookup_inv_def
  proof (intro allI impI)
    fix pci c_rnti i
    assume "map_of (pci_rnti_to_ue_index
              (mgr\<lparr>ues := emplace (allocate_ue_index C du mgr)
                     (new_cu_cp_ue C (allocate_ue_index C du mgr) du) (ues mgr)\<rparr>)) (pci, c_rnti) = Some i"
    then have "map_of (pci_rnti_to_ue_index mgr) (pci, c_rnti) = Some i" by simp
    with assms obtain ue where v: "pci \<noteq> INVALID_PCI C" "c_rnti \<noteq> INVALID_RNTI C"
      and ue: "map_of (ues mgr) i = Some ue" "ue_pci ue = pci" "ue_c_rnti ue = c_rnti"
      unfolding lookup_inv_def by blast
    from ue(1) fresh have "i \<noteq> allocate_ue_index C du mgr" by auto
    with ue have "map_of (ues (mgr\<lparr>ues := emplace (allocate_ue_index C du mgr)
                     (new_cu_cp_ue C (allocate_ue_index C du mgr) du) (ues mgr)\<rparr>)) i = Some ue"
      by (simp add: map_of_emplace)
    with v ue show "pci \<noteq> INVALID_PCI C \<and> c_rnti \<noteq> INVALID_RNTI C \<and>
        (\<exists>ue. map_of (ues (mgr\<lparr>ues := emplace (allocate_ue_index C du mgr)
                     (new_cu_cp_ue C (allocate_ue_index C du mgr) du) (ues mgr)\<rparr>)) i = Some ue \<and>
              ue_pci ue = pci \<and> ue_c_rnti ue = c_rnti)"
      by blast
  qed
qed

lemma lookup_inv_remove_ue:
  assumes "lookup_inv C mgr"
  shows "lookup_inv C (remove_ue C i mgr)"
proof (cases "i = invalid_ue_index C \<or> map_of (ues mgr) i = None")
  case True
  with assms show ?thesis by (auto simp: remove_ue_def)
next
  case False
  then obtain u where u: "map_of (ues mgr) i = Some u" and i: "i \<noteq> invalid_ue_index C"
    by auto
  define L where "L = (if ue_pci u \<noteq> INVALID_PCI C \<and> ue_c_rnti u \<noteq> INVALID_RNTI C
      then erase (ue_pci u, ue_c_rnti u) (pci_rnti_to_ue_index mgr)
      else pci_rnti_to_ue_index mgr)"
  from u i have s: "remove_ue C i mgr = mgr\<lparr>pci_rnti_to_ue_index := L, ues := erase i (ues mgr)\<rparr>"
    by (simp add: remove_ue_def Let_def L_def)
  show ?thesis
    unfolding s lookup_inv_def
  proof (intro allI impI)
    fix pci c_rnti j
    assume "map_of (pci_rnti_to_ue_index
              (mgr\<lparr>pci_rnti_to_ue_index := L, ues := erase i (ues mgr)\<rparr>)) (pci, c_rnti) = Some j"
    then have l: "map_of L (pci, c_rnti) = Some j" by simp
    then have old: "map_of (pci_rnti_to_ue_index mgr) (pci, c_rnti) = Some j"
      by (auto simp: L_def map_of_erase split: if_splits)
    with assms obtain ue where v: "pci \<noteq> INVALID_PCI C" "c_rnti \<noteq> INVALID_RNTI C"
      and ue: "map_of (ues mgr) j = Some ue" "ue_pci ue = pci" "ue_c_rnti ue = c_rnti"
      unfolding lookup_inv_def by blast
    have "j \<noteq> i"
    proof
      assume "j = i"
      with ue u have "ue = u" by simp
      with ue v l show False by (auto simp: L_def map_of_erase split: if_splits)
    qed
    with ue have "map_of (ues (mgr\<lparr>pci_rnti_to_ue_index := L, ues := erase i (ues mgr)\<rparr>)) j = Some ue"
      by (simp add: map_of_erase)
    with v ue show "pci \<noteq> INVALID_PCI C \<and> c_rnti \<noteq> INVALID_RNTI C \<and>
        (\<exists>ue. map_of (ues (mgr\<lparr>pci_rnti_to_ue_index := L, ues := erase i (ues mgr)\<rparr>)) j = Some ue \<and>
              ue_pci ue = pci \<and> ue_c_rnti ue = c_rnti)"
      by blast
  qed
qed

lemma lookup_inv_set_ue_du_context:
  assumes inv: "ue_inv C mgr" and li: "lookup_inv C mgr"
    and r: "set_ue_du_context C i du pci c_rnti mgr = Inr (res, mgr')"
    and once: "case find_ue i mgr of None \<Rightarrow> True
               | Some ue \<Rightarrow> ue_pci ue = INVALID_PCI C \<and> ue_c_rnti ue = INVALID_RNTI C"
  shows "lookup_inv C mgr'"
proof -
  note c = set_ue_du_context_cases [OF inv r]
  then have v: "pci \<noteq> INVALID_PCI C" "c_rnti \<noteq> INVALID_RNTI C" by simp_all
  show ?thesis
  proof (cases res)
    case None
    with c li show ?thesis by auto
  next
    case (Some ue')
    with c obtain u where u: "map_of (ues mgr) i = Some u"
      and free: "map_of (pci_rnti_to_ue_index mgr) (pci, c_rnti) = None"
      and m': "mgr' = mgr\<lparr>ues := update_at i (update_du_ue du pci c_rnti) (ues mgr),
                          pci_rnti_to_ue_index := emplace (pci, c_rnti) i (pci_rnti_to_ue_index mgr)\<rparr>"
      by auto
    from u once have blank: "ue_pci u = INVALID_PCI C"
      by (simp add: find_ue_def)
    show ?thesis
      unfolding m' lookup_inv_def
    proof (intro allI impI)
      fix p q j
      assume a: "map_of (pci_rnti_to_ue_index
                (mgr\<lparr>ues := update_at i (update_du_ue du pci c_rnti) (ues mgr),
                     pci_rnti_to_ue_index := emplace (pci, c_rnti) i (pci_rnti_to_ue_index mgr)\<rparr>))
                (p, q) = Some j"
      show "p \<noteq> INVALID_PCI C \<and> q \<noteq> INVALID_RNTI C \<and>
        (\<exists>ue. map_of (ues (mgr\<lparr>ues := update_at i (update_du_ue du pci c_rnti) (ues mgr),
                     pci_rnti_to_ue_index := emplace (pci, c_rnti) i (pci_rnti_to_ue_index mgr)\<rparr>)) j =
                Some ue \<and> ue_pci ue = p \<and> ue_c_rnti ue = q)"
      proof (cases "(p, q) = (pci, c_rnti)")
        case True
        with a free have "j = i" by (simp add: map_of_emplace)
        with True u v show ?thesis by (simp add: map_of_update_at update_du_ue_def)
      next
        case False
        with a have old: "map_of (pci_rnti_to_ue_index mgr) (p, q) = Some j"
          by (auto simp: map_of_emplace split: if_splits)
        with li obtain ue where w: "p \<noteq> INVALID_PCI C" "q \<noteq> INVALID_RNTI C"
          and ue: "map_of (ues mgr) j = Some ue" "ue_pci ue = p" "ue_c_rnti ue = q"
          unfolding lookup_inv_def by blast
        from ue u blank w have "j \<noteq> i" by auto
        with ue w show ?thesis by (simp add: map_of_update_at)
      qed
    qed
  qed
qed

lemma invs_apply_ops:
  assumes "apply_ue_ops C ops mgr = Inr mgr'" "sets_once C ops mgr" "ue_inv C mgr" "lookup_inv C mgr"
  shows "ue_inv C mgr' \<and> lookup_inv C mgr'"
  using assms
proof (induction ops arbitrary: mgr)
  case Nil
  then show ?case by simp
next
  case (Cons x xs)
  from Cons.prems(1) obtain m1 where m1: "apply_ue_op C x mgr = Inr m1"
    and rest: "apply_ue_ops C xs m1 = Inr mgr'"
    by (auto split: sum.splits)
  from Cons.prems(2) m1 have so: "sets_once C xs m1" by simp
  have i1: "ue_inv C m1" using Cons.prems(3) m1 by (rule ue_inv_apply_op)
  have l1: "lookup_inv C m1"
  proof (cases x)
    case (Add_ue du)
    with m1 Cons.prems(4) show ?thesis by (auto simp: lookup_inv_add_ue)
  next
    case (Remove_ue i)
    with m1 Cons.prems(4) show ?thesis by (auto simp: lookup_inv_remove_ue)
  next
    case (Set_ue_du_context i du pci c_rnti)
    with m1 obtain res where r: "set_ue_du_context C i du pci c_rnti mgr = Inr (res, m1)"
      by (auto split: sum.splits prod.splits)
    from Cons.prems(2) Set_ue_du_context
    have "case find_ue i mgr of None \<Rightarrow> True
          | Some ue \<Rightarrow> ue_pci ue = INVALID_PCI C \<and> ue_c_rnti ue = INVALID_RNTI C"
      by simp
    with Cons.prems(3,4) r show ?thesis by (rule lookup_inv_set_ue_du_context)
  qed
  from Cons.IH [OF rest so i1 l1] show ?case .
qed

text \<open>
  When the DU context of every UE is set at most once, the round trip holds in the
  direction of the claim as well: the index that \<^verbatim>\<open>get_ue_index\<close> returns for a pair is
  the index of a UE of the UE map, and the record of that UE holds the pair.
\<close>

lemma ue_pci_rnti_round_trip_set_once:
  assumes "apply_ue_ops C ops ue_manager_empty = Inr mgr" "sets_once C ops ue_manager_empty"
    and "get_ue_index C pci c_rnti mgr = i" "i \<noteq> invalid_ue_index C"
  shows "\<exists>ue. find_ue i mgr = Some ue \<and> ue_pci ue = pci \<and> ue_c_rnti ue = c_rnti"
proof -
  from invs_apply_ops [OF assms(1,2) ue_inv_empty lookup_inv_empty]
  have li: "lookup_inv C mgr" by simp
  from assms(3,4) have "map_of (pci_rnti_to_ue_index mgr) (pci, c_rnti) = Some i"
    by (auto simp: get_ue_index_def split: option.splits)
  with li show ?thesis unfolding lookup_inv_def find_ue_def by blast
qed

lemma stale_ue_run:
  "apply_ue_ops sample_ue_consts stale_ue_ops ue_manager_empty = Inr stale_ue_manager"
  by (simp add: stale_ue_ops_def sample_ue_consts_def ue_manager_empty_def add_ue_def
      allocate_ue_index_def upt_0_4 emplace_def update_at_def new_cu_cp_ue_def
      update_du_ue_def set_ue_du_context_def get_ue_index_def Let_def stale_ue_manager_def)

text \<open>
  Claim C8. The round trip from a pair to the UE index and back to the pair fails when the
  DU context of a UE is set a second time: \<^verbatim>\<open>set_ue_du_context\<close> stores the new pair in
  the record and in the lookup and leaves the old pair in the lookup. After
  \<^verbatim>\<open>add_ue(0)\<close>, \<^verbatim>\<open>set_ue_du_context(0, 5, 2, 21)\<close> and
  \<^verbatim>\<open>set_ue_du_context(0, 5, 2, 22)\<close>, both calls having succeeded, \<^verbatim>\<open>get_ue_index(2, 21)\<close>
  returns the index 0 of a live UE whose record holds the pair (2, 22). After
  \<^verbatim>\<open>remove_ue(0)\<close> it still returns 0, although there is no UE 0 any more, and a new UE
  is refused the pair (2, 21) that no UE holds.
\<close>

theorem ue_pci_rnti_stale_after_second_set:
  "apply_ue_ops sample_ue_consts stale_ue_ops ue_manager_empty = Inr stale_ue_manager \<and>
   get_ue_index sample_ue_consts 2 21 stale_ue_manager = 0 \<and>
   find_ue 0 stale_ue_manager =
     Some \<lparr>ue_index = 0, ue_du_index = 0, ue_du_id = 5, ue_pci = 2, ue_c_rnti = 22\<rparr> \<and>
   get_ue_index sample_ue_consts 2 22 stale_ue_manager = 0 \<and>
   remove_ue sample_ue_consts 0 stale_ue_manager = dangling_ue_manager \<and>
   get_ue_index sample_ue_consts 2 21 dangling_ue_manager = 0 \<and>
   find_ue 0 dangling_ue_manager = None \<and>
   add_ue sample_ue_consts 0 dangling_ue_manager =
     (0, dangling_ue_manager\<lparr>ues := [(0, new_cu_cp_ue sample_ue_consts 0 0)]\<rparr>) \<and>
   set_ue_du_context sample_ue_consts 0 5 2 21
     (dangling_ue_manager\<lparr>ues := [(0, new_cu_cp_ue sample_ue_consts 0 0)]\<rparr>) =
     Inr (None, dangling_ue_manager\<lparr>ues := [(0, new_cu_cp_ue sample_ue_consts 0 0)]\<rparr>)"
proof -
  have 1: "get_ue_index sample_ue_consts 2 21 stale_ue_manager = 0"
    "get_ue_index sample_ue_consts 2 22 stale_ue_manager = 0"
    by (simp_all add: get_ue_index_def stale_ue_manager_def)
  have 2: "find_ue 0 stale_ue_manager =
     Some \<lparr>ue_index = 0, ue_du_index = 0, ue_du_id = 5, ue_pci = 2, ue_c_rnti = 22\<rparr>"
    by (simp add: find_ue_def stale_ue_manager_def)
  have 3: "remove_ue sample_ue_consts 0 stale_ue_manager = dangling_ue_manager"
    by (simp add: remove_ue_def stale_ue_manager_def dangling_ue_manager_def sample_ue_consts_def
        erase_def Let_def)
  have 4: "get_ue_index sample_ue_consts 2 21 dangling_ue_manager = 0"
    "find_ue 0 dangling_ue_manager = None"
    by (simp_all add: get_ue_index_def find_ue_def dangling_ue_manager_def)
  have 5: "add_ue sample_ue_consts 0 dangling_ue_manager =
     (0, dangling_ue_manager\<lparr>ues := [(0, new_cu_cp_ue sample_ue_consts 0 0)]\<rparr>)"
    by (simp add: add_ue_def dangling_ue_manager_def sample_ue_consts_def allocate_ue_index_def
        upt_0_4 Let_def emplace_def)
  have 6: "set_ue_du_context sample_ue_consts 0 5 2 21
     (dangling_ue_manager\<lparr>ues := [(0, new_cu_cp_ue sample_ue_consts 0 0)]\<rparr>) =
     Inr (None, dangling_ue_manager\<lparr>ues := [(0, new_cu_cp_ue sample_ue_consts 0 0)]\<rparr>)"
    by (simp add: set_ue_du_context_def dangling_ue_manager_def sample_ue_consts_def
        get_ue_index_def)
  from stale_ue_run 1 2 3 4 5 6 show ?thesis by simp
qed

section \<open>Proofs: destruction of the F1-U bearer\<close>

text \<open>
  Claim C9. The first thing that the destruction of a bearer does is the call
  \<^verbatim>\<open>disconnect_cu_bearer(ul_teid)\<close>; everything after it is the destruction of a member.
  In the state that follows the call the TEID is no longer in the demux while the timer and
  the discard blocks are still untouched, and the TEID is absent from the demux in every
  later state.
\<close>

theorem f1u_bearer_destruction_deregisters_first:
  "destroy_f1u_bearer b =
     Disconnect_cu_bearer (ul_teid b) # map Destroy_member (rev f1u_bearer_members) \<and>
   map_of (demux (world_states b (destroy_f1u_bearer b) w ! 1)) (ul_teid b) = None \<and>
   running_timers (world_states b (destroy_f1u_bearer b) w ! 1) = running_timers w \<and>
   pending_discards (world_states b (destroy_f1u_bearer b) w ! 1) = pending_discards w \<and>
   list_all (\<lambda>w'. map_of (demux w') (ul_teid b) = None)
     (drop 1 (world_states b (destroy_f1u_bearer b) w)) \<and>
   dl_notif_timer b \<notin> set (running_timers (last (world_states b (destroy_f1u_bearer b) w))) \<and>
   pending_discards (last (world_states b (destroy_f1u_bearer b) w)) = []"
proof -
  let ?w1 = "w\<lparr>demux := erase (ul_teid b) (demux w)\<rparr>"
  have events: "destroy_f1u_bearer b =
      Disconnect_cu_bearer (ul_teid b) # map Destroy_member (rev f1u_bearer_members)"
    by (simp add: destroy_f1u_bearer_def destructor_body_def)
  have states: "world_states b (destroy_f1u_bearer b) w =
      [w, ?w1, ?w1\<lparr>pending_discards := []\<rparr>,
       ?w1\<lparr>pending_discards := [],
            running_timers := removeAll (dl_notif_timer b) (running_timers w)\<rparr>,
       ?w1\<lparr>pending_discards := [],
            running_timers := removeAll (dl_notif_timer b) (running_timers w)\<rparr>,
       ?w1\<lparr>pending_discards := [],
            running_timers := removeAll (dl_notif_timer b) (running_timers w)\<rparr>,
       ?w1\<lparr>pending_discards := [],
            running_timers := removeAll (dl_notif_timer b) (running_timers w)\<rparr>,
       ?w1\<lparr>pending_discards := [],
            running_timers := removeAll (dl_notif_timer b) (running_timers w)\<rparr>,
       ?w1\<lparr>pending_discards := [],
            running_timers := removeAll (dl_notif_timer b) (running_timers w)\<rparr>,
       ?w1\<lparr>pending_discards := [],
            running_timers := removeAll (dl_notif_timer b) (running_timers w)\<rparr>]"
    unfolding events by (simp add: f1u_bearer_members_def)
  have gone: "map_of (demux ?w1) (ul_teid b) = None"
    by (simp add: map_of_erase)
  from gone show ?thesis
    unfolding states by (simp add: events)
qed

section \<open>Proofs: F1 Setup admission\<close>

text \<open>
  Claim C6 (on the model that follows the specification). For a DU whose connection has a
  slot: if NG is not connected, or another DU has the gNB-DU id of the request, or a cell of
  the request carries another gNB-id than the local one, the answer is F1 Setup Failure and
  the state, hence the slot, is unchanged; otherwise the answer is F1 Setup Response and the
  slot holds the gNB-DU id and the cells of the request.
\<close>

theorem f1_setup_admission:
  assumes "map_of (dus s) d = Some slot"
  shows "(\<not> ng_connected s \<or> other_du_has_id d (req_gnb_du_id req) s \<or> gnb_id_mismatch cfg req \<longrightarrow>
            handle_f1_setup_request cfg d req s = (F1_setup_failure, s)) \<and>
         (\<not> (\<not> ng_connected s \<or> other_du_has_id d (req_gnb_du_id req) s \<or>
              gnb_id_mismatch cfg req) \<longrightarrow>
            fst (handle_f1_setup_request cfg d req s) = F1_setup_response \<and>
            map_of (dus (snd (handle_f1_setup_request cfg d req s))) d =
              Some (slot\<lparr>gnb_du_id := Some (req_gnb_du_id req), du_cells := req_cells req\<rparr>))"
  using assms by (auto simp: handle_f1_setup_request_def map_of_update_at)

theorem f1_setup_admission_witness:
  "map_of (dus two_dus_connected) 0 = Some \<lparr>gnb_du_id = None, du_cells = []\<rparr> \<and>
   handle_f1_setup_request sample_cu_cp_config 0 sample_f1_setup_request two_dus_connected =
     (F1_setup_response, first_du_set_up) \<and>
   map_of (dus first_du_set_up) 1 = Some \<lparr>gnb_du_id = None, du_cells = []\<rparr> \<and>
   other_du_has_id 1 (req_gnb_du_id sample_f1_setup_request) first_du_set_up \<and>
   handle_f1_setup_request sample_cu_cp_config 1 sample_f1_setup_request first_du_set_up =
     (F1_setup_failure, first_du_set_up) \<and>
   handle_f1_setup_request sample_cu_cp_config 0 sample_f1_setup_request
     (two_dus_connected\<lparr>ng_connected := False\<rparr>) =
     (F1_setup_failure, two_dus_connected\<lparr>ng_connected := False\<rparr>)"
proof -
  have a: "map_of (dus two_dus_connected) 0 = Some \<lparr>gnb_du_id = None, du_cells = []\<rparr>"
    by (simp add: two_dus_connected_def)
  have b: "map_of (dus first_du_set_up) 1 = Some \<lparr>gnb_du_id = None, du_cells = []\<rparr>"
    by (simp add: first_du_set_up_def)
  have c: "other_du_has_id 1 (req_gnb_du_id sample_f1_setup_request) first_du_set_up"
    by (simp add: other_du_has_id_def first_du_set_up_def sample_f1_setup_request_def)
  have d: "map_of (dus (two_dus_connected\<lparr>ng_connected := False\<rparr>)) 0 =
      Some \<lparr>gnb_du_id = None, du_cells = []\<rparr>"
    by (simp add: two_dus_connected_def)
  have e: "handle_f1_setup_request sample_cu_cp_config 0 sample_f1_setup_request two_dus_connected =
     (F1_setup_response, first_du_set_up)"
    by (simp add: handle_f1_setup_request_def two_dus_connected_def first_du_set_up_def
        sample_cu_cp_config_def sample_f1_setup_request_def other_du_has_id_def
        gnb_id_mismatch_def update_at_def)
  from f1_setup_admission [OF b, of sample_f1_setup_request sample_cu_cp_config] c
  have f: "handle_f1_setup_request sample_cu_cp_config 1 sample_f1_setup_request first_du_set_up =
     (F1_setup_failure, first_du_set_up)" by simp
  from f1_setup_admission [OF d, of sample_f1_setup_request sample_cu_cp_config]
  have g: "handle_f1_setup_request sample_cu_cp_config 0 sample_f1_setup_request
     (two_dus_connected\<lparr>ng_connected := False\<rparr>) =
     (F1_setup_failure, two_dus_connected\<lparr>ng_connected := False\<rparr>)" by simp
  from a e b c f g show ?thesis by simp
qed

section \<open>Proofs: UE attach without a CU-UP\<close>

lemma add_ue_new:
  assumes "add_ue C d mgr = (i, mgr1)" "i \<noteq> invalid_ue_index C"
  shows "map_of (ues mgr) i = None"
    and "map_of (ues mgr1) i = Some (new_cu_cp_ue C i d)"
    and "pci_rnti_to_ue_index mgr1 = pci_rnti_to_ue_index mgr"
  using assms allocate_ue_index_fresh [of C d mgr]
  by (auto simp: add_ue_def Let_def map_of_emplace split: if_splits)

lemma attach_without_cu_up:
  assumes slot: "map_of (dus (f1 s)) d = Some slot" "gnb_du_id slot = Some g"
    and e1: "\<not> e1_available s"
    and valid: "pci \<noteq> INVALID_PCI C" "c_rnti \<noteq> INVALID_RNTI C"
    and fresh: "get_ue_index C pci c_rnti (ue_mng s) = invalid_ue_index C"
    and add: "add_ue C d (ue_mng s) = (i, mgr1)" "i \<noteq> invalid_ue_index C"
  shows "handle_init_ul_rrc_message_transfer C d du_ue pci c_rnti s =
         Inr (s\<lparr>ue_mng := mgr1\<lparr>ues := update_at i (update_du_ue g pci c_rnti) (ues mgr1),
                                  pci_rnti_to_ue_index :=
                                    emplace (pci, c_rnti) i (pci_rnti_to_ue_index mgr1)\<rparr>,
                 f1ap_tx := f1ap_tx s @ [(d, Ue_context_release_cmd i du_ue Rrc_reject Srb0)]\<rparr>)"
proof -
  note n = add_ue_new [OF add]
  from fresh n(3) have "get_ue_index C pci c_rnti mgr1 = invalid_ue_index C"
    by (simp add: get_ue_index_def)
  with n(2) valid add(2)
  have "set_ue_du_context C i g pci c_rnti mgr1 =
        Inr (Some (update_du_ue g pci c_rnti (new_cu_cp_ue C i d)),
             mgr1\<lparr>ues := update_at i (update_du_ue g pci c_rnti) (ues mgr1),
                   pci_rnti_to_ue_index := emplace (pci, c_rnti) i (pci_rnti_to_ue_index mgr1)\<rparr>)"
    by (simp add: set_ue_du_context_def Let_def)
  with slot e1 fresh add show ?thesis
    by (simp add: handle_init_ul_rrc_message_transfer_def)
qed

text \<open>
  Claim C7 (on the model that follows the specification). When F1 is up for the DU, no
  CU-UP is available, the pair (PCI, C-RNTI) is valid and new, and the UE manager has room,
  the Initial UL RRC Message makes the CU-CP send exactly one F1AP PDU, to that DU: a UE
  Context Release Command with an RRC Reject on SRB0. The new UE is then in the UE manager,
  with that PCI and C-RNTI; the UE Context Release Complete removes it; and neither message
  adds an NGAP PDU.
\<close>

theorem ue_attach_without_cu_up_rejected:
  assumes "map_of (dus (f1 s)) d = Some slot" "gnb_du_id slot = Some g"
    and "\<not> e1_available s"
    and "pci \<noteq> INVALID_PCI C" "c_rnti \<noteq> INVALID_RNTI C"
    and "get_ue_index C pci c_rnti (ue_mng s) = invalid_ue_index C"
    and "fst (add_ue C d (ue_mng s)) = i" "i \<noteq> invalid_ue_index C"
  shows "\<exists>s'. handle_init_ul_rrc_message_transfer C d du_ue pci c_rnti s = Inr s' \<and>
           f1ap_tx s' = f1ap_tx s @ [(d, Ue_context_release_cmd i du_ue Rrc_reject Srb0)] \<and>
           ngap_tx s' = ngap_tx s \<and>
           find_ue i (ue_mng s) = None \<and>
           (\<exists>ue. find_ue i (ue_mng s') = Some ue \<and> ue_pci ue = pci \<and> ue_c_rnti ue = c_rnti) \<and>
           find_ue i (ue_mng (handle_ue_context_release_complete C i du_ue s')) = None \<and>
           f1ap_tx (handle_ue_context_release_complete C i du_ue s') = f1ap_tx s' \<and>
           ngap_tx (handle_ue_context_release_complete C i du_ue s') = ngap_tx s"
proof -
  obtain mgr1 where add: "add_ue C d (ue_mng s) = (i, mgr1)"
    using assms(7) by (cases "add_ue C d (ue_mng s)") simp
  note n = add_ue_new [OF add assms(8)]
  note h = attach_without_cu_up [OF assms(1-6) add assms(8), of du_ue]
  have rm: "find_ue i (remove_ue C i m) = None" for m
    using assms(8) by (auto simp: find_ue_def remove_ue_def Let_def map_of_erase split: option.splits)
  show ?thesis
    unfolding h
    apply (rule exI, rule conjI, rule refl)
    using n
    apply (simp add: handle_ue_context_release_complete_def rm)
    apply (simp add: find_ue_def map_of_update_at update_du_ue_def new_cu_cp_ue_def)
    done
qed

lemma sample_attach:
  "handle_init_ul_rrc_message_transfer sample_ue_consts 0 0 2 17921 sample_cu_cp_state =
     Inr sample_ue_rejected"
  by (simp add: handle_init_ul_rrc_message_transfer_def sample_cu_cp_state_def
      sample_ue_rejected_def sample_ue_consts_def ue_manager_empty_def get_ue_index_def
      add_ue_def allocate_ue_index_def upt_0_4 Let_def emplace_def new_cu_cp_ue_def
      set_ue_du_context_def update_at_def update_du_ue_def e1_available_def)

theorem ue_attach_without_cu_up_rejected_witness:
  "handle_init_ul_rrc_message_transfer sample_ue_consts 0 0 2 17921 sample_cu_cp_state =
     Inr sample_ue_rejected \<and>
   f1ap_tx sample_ue_rejected =
     f1ap_tx sample_cu_cp_state @ [(0, Ue_context_release_cmd 0 0 Rrc_reject Srb0)] \<and>
   ngap_tx sample_ue_rejected = ngap_tx sample_cu_cp_state \<and>
   find_ue 0 (ue_mng sample_cu_cp_state) = None \<and>
   (\<exists>ue. find_ue 0 (ue_mng sample_ue_rejected) = Some ue \<and> ue_pci ue = 2 \<and>
      ue_c_rnti ue = 17921) \<and>
   find_ue 0 (ue_mng (handle_ue_context_release_complete sample_ue_consts 0 0
      sample_ue_rejected)) = None \<and>
   ngap_tx (handle_ue_context_release_complete sample_ue_consts 0 0 sample_ue_rejected) =
     ngap_tx sample_cu_cp_state"
proof -
  have 1: "map_of (dus (f1 sample_cu_cp_state)) 0 = Some \<lparr>gnb_du_id = Some 85, du_cells = [6733824]\<rparr>"
    by (simp add: sample_cu_cp_state_def)
  have 2: "gnb_du_id \<lparr>gnb_du_id = Some 85, du_cells = [6733824]\<rparr> = Some 85" by simp
  have 3: "\<not> e1_available sample_cu_cp_state"
    by (simp add: e1_available_def sample_cu_cp_state_def)
  have 4: "(2::nat) \<noteq> INVALID_PCI sample_ue_consts" by (simp add: sample_ue_consts_def)
  have 5: "(17921::nat) \<noteq> INVALID_RNTI sample_ue_consts" by (simp add: sample_ue_consts_def)
  have 6: "get_ue_index sample_ue_consts 2 17921 (ue_mng sample_cu_cp_state) =
      invalid_ue_index sample_ue_consts"
    by (simp add: get_ue_index_def sample_cu_cp_state_def ue_manager_empty_def)
  have 7: "fst (add_ue sample_ue_consts 0 (ue_mng sample_cu_cp_state)) = 0"
    by (simp add: add_ue_def sample_cu_cp_state_def ue_manager_empty_def sample_ue_consts_def
        allocate_ue_index_def upt_0_4 Let_def)
  have 8: "(0::nat) \<noteq> invalid_ue_index sample_ue_consts" by (simp add: sample_ue_consts_def)
  from ue_attach_without_cu_up_rejected [OF 1 2 3 4 5 6 7 8, of 0]
  show ?thesis unfolding sample_attach by simp
qed

end
